theory Spec2Isabelle
  imports Main
begin

section \<open>Python string operations used by the crawler\<close>

text \<open>
  Strings are \<open>char list\<close>. The operations below are the ones the source applies to
  URLs: \<^verbatim>\<open>s.endswith(suf)\<close>, \<^verbatim>\<open>s.startswith(pre)\<close>, \<^verbatim>\<open>sub in s\<close> and
  \<^verbatim>\<open>s.lower()\<close>. Lower-casing acts on the ASCII letters; every other character is
  left as it is.
\<close>

definition endswith :: "string \<Rightarrow> string \<Rightarrow> bool" where
  "endswith s suf =
     (length suf \<le> length s \<and> drop (length s - length suf) s = suf)"

definition startswith :: "string \<Rightarrow> string \<Rightarrow> bool" where
  "startswith s pre = (take (length pre) s = pre)"

fun str_contains :: "string \<Rightarrow> string \<Rightarrow> bool" where
  "str_contains sub [] = (sub = [])"
| "str_contains sub (c # cs) = (startswith (c # cs) sub \<or> str_contains sub cs)"

definition ascii_upper :: string where
  "ascii_upper = ''ABCDEFGHIJKLMNOPQRSTUVWXYZ''"

definition ascii_lower :: string where
  "ascii_lower = ''abcdefghijklmnopqrstuvwxyz''"

definition lower_char :: "char \<Rightarrow> char" where
  "lower_char c =
     (case map_of (zip ascii_upper ascii_lower) c of None \<Rightarrow> c | Some d \<Rightarrow> d)"

definition lower :: "string \<Rightarrow> string" where
  "lower s = map lower_char s"

text \<open>
  \<^verbatim>\<open>s.split(c, 1)\<close> for a string that contains \<open>c\<close>: the part before the first
  \<open>c\<close> and the part after it.
\<close>

definition split_once :: "char \<Rightarrow> string \<Rightarrow> string \<times> string" where
  "split_once c s =
     (takeWhile (\<lambda>x. x \<noteq> c) s, drop 1 (dropWhile (\<lambda>x. x \<noteq> c) s))"

section \<open>The URL parser the crawler calls\<close>

text \<open>
  \<^verbatim>\<open>urlparse\<close> is the standard library's \<^verbatim>\<open>urllib.parse.urlparse\<close>; the crawler
  reads the fields \<^verbatim>\<open>path\<close> and \<^verbatim>\<open>netloc\<close> of its result. The definitions follow
  the library's \<^verbatim>\<open>urlsplit\<close>, \<^verbatim>\<open>_splitnetloc\<close>, \<^verbatim>\<open>_splitparams\<close> and
  \<^verbatim>\<open>urlparse\<close> step by step: leading control characters and spaces are stripped,
  tab, carriage return and line feed are removed, a scheme is split off at the
  first colon when everything before it is a scheme character and the first
  character is a letter, a network location follows a leading \<^verbatim>\<open>//\<close> up to the
  first of \<^verbatim>\<open>/ ? #\<close>, the fragment is what follows the first \<^verbatim>\<open>#\<close>, the query what
  follows the first \<^verbatim>\<open>?\<close> of the rest, and for the schemes that carry parameters
  the part of the last path segment after \<^verbatim>\<open>;\<close> is split off the path. The
  library rejects some network locations with \<^verbatim>\<open>ValueError\<close> (unbalanced
  brackets, an invalid bracketed host, characters that normalise to a
  delimiter); those inputs are outside this model, which covers the strings
  on which the library returns.
\<close>

record parse_result =
  scheme :: string
  netloc :: string
  path :: string
  params :: string
  query :: string
  fragment :: string

definition scheme_chars :: string where
  "scheme_chars = ascii_lower @ ascii_upper @ ''0123456789+-.''"

definition uses_params :: "string list" where
  "uses_params = ['''', ''ftp'', ''hdl'', ''prospero'', ''http'', ''imap'',
     ''https'', ''shttp'', ''rtsp'', ''rtsps'', ''rtspu'', ''sip'', ''sips'',
     ''mms'', ''sftp'', ''tel'']"

definition c0_control_or_space :: "char \<Rightarrow> bool" where
  "c0_control_or_space c = ((of_char c :: nat) \<le> 32)"

definition unsafe_url_byte :: "char \<Rightarrow> bool" where
  "unsafe_url_byte c = (c = CHR 0x09 \<or> c = CHR 0x0D \<or> c = CHR 0x0A)"

definition split_scheme :: "string \<Rightarrow> string \<times> string" where
  "split_scheme url =
     (let pre = takeWhile (\<lambda>c. c \<noteq> CHR '':'') url in
      if CHR '':'' \<in> set url \<and> pre \<noteq> []
         \<and> hd url \<in> set (ascii_lower @ ascii_upper)
         \<and> list_all (\<lambda>c. c \<in> set scheme_chars) pre
      then (lower pre, drop (Suc (length pre)) url)
      else ('''', url))"

definition netloc_delim :: "char \<Rightarrow> bool" where
  "netloc_delim c = (c = CHR ''/'' \<or> c = CHR ''?'' \<or> c = CHR ''#'')"

definition splitnetloc :: "string \<Rightarrow> string \<times> string" where
  "splitnetloc url =
     (let rest = drop 2 url in
      (takeWhile (\<lambda>c. \<not> netloc_delim c) rest,
       dropWhile (\<lambda>c. \<not> netloc_delim c) rest))"

definition urlsplit :: "string \<Rightarrow> string \<times> string \<times> string \<times> string \<times> string" where
  "urlsplit url0 =
     (let url1 = filter (\<lambda>c. \<not> unsafe_url_byte c) (dropWhile c0_control_or_space url0);
          (sch, url2) = split_scheme url1;
          (loc, url3) = (if take 2 url2 = ''//'' then splitnetloc url2 else ('''', url2));
          (url4, frag) = (if CHR ''#'' \<in> set url3 then split_once (CHR ''#'') url3
                          else (url3, ''''));
          (url5, qry) = (if CHR ''?'' \<in> set url4 then split_once (CHR ''?'') url4
                         else (url4, ''''))
      in (sch, loc, url5, qry, frag))"

definition splitparams :: "string \<Rightarrow> string \<times> string" where
  "splitparams url =
     (if CHR ''/'' \<in> set url then
        (let k = length url - Suc (length (takeWhile (\<lambda>c. c \<noteq> CHR ''/'') (rev url)));
             seg = drop k url
         in if CHR '';'' \<in> set seg
            then (take k url @ fst (split_once (CHR '';'') seg),
                  snd (split_once (CHR '';'') seg))
            else (url, ''''))
      else if CHR '';'' \<in> set url then split_once (CHR '';'') url
      else (butlast url, url))"

definition urlparse :: "string \<Rightarrow> parse_result" where
  "urlparse url =
     (case urlsplit url of (sch, loc, p, qry, frag) \<Rightarrow>
        (let (p', prm) = (if sch \<in> set uses_params \<and> CHR '';'' \<in> set p
                          then splitparams p else (p, ''''))
         in \<lparr>scheme = sch, netloc = loc, path = p', params = prm,
              query = qry, fragment = frag\<rparr>))"

section \<open>The URL classifier\<close>

definition SKIP_EXTENSIONS :: "string list" where
  "SKIP_EXTENSIONS = [''.pdf'', ''.jpg'', ''.jpeg'', ''.png'', ''.gif'', ''.mp4'',
     ''.zip'', ''.doc'', ''.docx'', ''.xls'', ''.xlsx'']"

definition should_skip_url :: "string \<Rightarrow> bool" where
  "should_skip_url url =
     (let parsed_url = urlparse url;
          p = lower (path parsed_url)
      in list_ex (\<lambda>ext. endswith p ext) SKIP_EXTENSIONS)"

definition is_valid_landing_page :: "string \<Rightarrow> bool" where
  "is_valid_landing_page url =
     (if str_contains ''#'' url \<or> str_contains ''et_blog'' url then False else True)"

section \<open>The page fetcher and the link extractor\<close>

text \<open>
  What the network and the HTML parser give back for a URL.
  \<open>RequestException\<close> stands for \<^verbatim>\<open>requests.get\<close> raising a
  \<^verbatim>\<open>requests.RequestException\<close> (a connection error, a timeout);
  \<open>OtherException\<close> for \<^verbatim>\<open>requests.get\<close> raising an exception of another class.
  \<open>Response\<close> carries the status code of the response, its \<^verbatim>\<open>Content-Type\<close>
  header (absent or present) and the \<^verbatim>\<open>href\<close> values of the anchors
  \<^verbatim>\<open>soup.find_all("a", href=True)\<close> yields, in document order.
\<close>

datatype http_result =
    RequestException
  | OtherException
  | Response (status_code: nat) (content_type_header: "string option")
      (hrefs: "string list")

text \<open>
  \<^verbatim>\<open>response.raise_for_status()\<close> raises \<^verbatim>\<open>HTTPError\<close>, a
  \<^verbatim>\<open>RequestException\<close>, for the status codes 400 to 599 and returns for every
  other one. The definition says when it raises.
\<close>

definition raise_for_status :: "nat \<Rightarrow> bool" where
  "raise_for_status status = (400 \<le> status \<and> status < 600)"

text \<open>
  The exceptions that \<^verbatim>\<open>get_links\<close> does not catch: its only handler is for
  \<^verbatim>\<open>requests.RequestException\<close>. \<open>ValueError\<close> is what \<^verbatim>\<open>urljoin\<close> raises on an
  href it cannot parse; \<open>OtherError\<close> is an exception of \<^verbatim>\<open>requests.get\<close> that is
  not a \<^verbatim>\<open>RequestException\<close>.
\<close>

datatype uncaught = ValueError | OtherError

text \<open>
  The environment of a run: the web, and \<^verbatim>\<open>urllib.parse.urljoin\<close>, which resolves
  an href against the URL of the page that holds it, or raises \<^verbatim>\<open>ValueError\<close>
  (the value \<open>None\<close>). The resolution is a parameter: the theorems hold for
  every function put in its place. \<^verbatim>\<open>urljoin\<close> parses the href and the URL of the
  page before it returns, so the strings it returns are strings the parser
  accepts, and the calls of \<^verbatim>\<open>urlparse\<close> that follow it in the loop body are
  modelled where the parser returns.
\<close>

record env =
  http_get :: "string \<Rightarrow> http_result"
  urljoin :: "string \<Rightarrow> string \<Rightarrow> string option"

datatype message = Warning string | Error string

text \<open>
  The state of a run. \<open>visited_urls\<close> and \<open>external_links\<close> are the module's
  globals, \<open>urls_to_visit\<close> and \<open>total_urls_discovered\<close> the locals of
  \<^verbatim>\<open>crawl_website\<close>. Three fields are traces of the effects: the URLs passed to
  \<^verbatim>\<open>requests.get\<close>, the messages shown through \<^verbatim>\<open>st.warning\<close> and \<^verbatim>\<open>st.error\<close>
  (with the URL they name), and for each progress report the two operands of
  the division \<^verbatim>\<open>len(visited_urls) / total_urls_discovered\<close>. \<open>raised\<close> is
  \<open>None\<close> while \<^verbatim>\<open>crawl_website\<close> is running or has returned, and holds the
  exception once one has left it.
\<close>

record state =
  visited_urls :: "string set"
  external_links :: "(string \<times> string) list"
  urls_to_visit :: "string set"
  total_urls_discovered :: nat
  requests :: "string list"
  messages :: "message list"
  progress :: "(nat \<times> nat) list"
  raised :: "uncaught option"

text \<open>
  The body of the loop over the anchors of one page: \<open>Inl\<close> when the resolution
  of the href raises, and the two collections after the body otherwise.
\<close>

definition handle_href ::
  "env \<Rightarrow> string \<Rightarrow> string \<Rightarrow> string set \<times> (string \<times> string) list \<Rightarrow> string
     \<Rightarrow> uncaught + string set \<times> (string \<times> string) list" where
  "handle_href e url base_url acc href =
     (case acc of (internal_links, ext_links) \<Rightarrow>
        (case urljoin e url href of
           None \<Rightarrow> Inl ValueError
         | Some full_url \<Rightarrow>
             Inr (if should_skip_url full_url then (internal_links, ext_links)
                  else if \<not> is_valid_landing_page full_url then (internal_links, ext_links)
                  else
                    (let parsed_url = urlparse full_url in
                     if netloc parsed_url = netloc (urlparse base_url)
                     then (insert full_url internal_links, ext_links)
                     else if startswith full_url ''http''
                     then (internal_links, ext_links @ [(full_url, url)])
                     else (internal_links, ext_links)))))"

text \<open>
  The loop over the anchors. It stops at the first href whose resolution
  raises; what was appended to \<open>external_links\<close> before stays appended, since the
  list is a global.
\<close>

fun handle_hrefs ::
  "env \<Rightarrow> string \<Rightarrow> string \<Rightarrow> string list \<Rightarrow> string set \<times> (string \<times> string) list
     \<Rightarrow> uncaught option \<times> string set \<times> (string \<times> string) list" where
  "handle_hrefs e url base_url [] acc = (None, acc)"
| "handle_hrefs e url base_url (href # rest) acc =
     (case handle_href e url base_url acc href of
        Inl x \<Rightarrow> (Some x, acc)
      | Inr acc' \<Rightarrow> handle_hrefs e url base_url rest acc')"

text \<open>
  \<^verbatim>\<open>get_links\<close> returns a set of links (\<open>Inr\<close>) or is left by an exception it does
  not catch (\<open>Inl\<close>); in both cases the state is the one it leaves behind.
\<close>

definition get_links ::
  "env \<Rightarrow> string \<Rightarrow> string \<Rightarrow> state \<Rightarrow> (uncaught + string set) \<times> state" where
  "get_links e url base_url s =
     (let s1 = s\<lparr>requests := requests s @ [url]\<rparr> in
      case http_get e url of
        RequestException \<Rightarrow> (Inr {}, s1\<lparr>messages := messages s1 @ [Error url]\<rparr>)
      | OtherException \<Rightarrow> (Inl OtherError, s1)
      | Response status header hs \<Rightarrow>
          if raise_for_status status
          then (Inr {}, s1\<lparr>messages := messages s1 @ [Error url]\<rparr>)
          else
            (let content_type = (case header of None \<Rightarrow> [] | Some v \<Rightarrow> v) in
             if \<not> str_contains ''text/html'' content_type
             then (Inr {}, s1\<lparr>messages := messages s1 @ [Warning url]\<rparr>)
             else
               (case handle_hrefs e url base_url hs ({}, external_links s1) of
                  (None, internal_links, ext_links) \<Rightarrow>
                    (Inr internal_links, s1\<lparr>external_links := ext_links\<rparr>)
                | (Some x, internal_links, ext_links) \<Rightarrow>
                    (Inl x, s1\<lparr>external_links := ext_links\<rparr>))))"

text \<open>The set a call of \<^verbatim>\<open>get_links\<close> hands to its caller: none when it raises.\<close>

definition returned_links :: "uncaught + string set \<Rightarrow> string set" where
  "returned_links r = (case r of Inl x \<Rightarrow> {} | Inr links \<Rightarrow> links)"

section \<open>The crawl engine\<close>

text \<open>
  The caller clears the two globals (\<^verbatim>\<open>visited_urls.clear()\<close>,
  \<^verbatim>\<open>external_links.clear()\<close>) and calls \<^verbatim>\<open>crawl_website\<close>, which sets
  \<^verbatim>\<open>urls_to_visit = {start_url}\<close> and the counter to its length.
\<close>

definition crawl_init :: "string \<Rightarrow> state" where
  "crawl_init start_url =
     \<lparr>visited_urls = {}, external_links = [], urls_to_visit = {start_url},
      total_urls_discovered = card {start_url}, requests = [], messages = [],
      progress = [], raised = None\<rparr>"

text \<open>
  One iteration of \<^verbatim>\<open>while urls_to_visit\<close>, for the element \<open>current_url\<close>
  that \<^verbatim>\<open>urls_to_visit.pop()\<close> removed. The call of \<^verbatim>\<open>get_links\<close> is not guarded:
  an exception that leaves it leaves \<^verbatim>\<open>crawl_website\<close> too, before the frontier
  and the counter are updated.
\<close>

definition crawl_iteration :: "env \<Rightarrow> string \<Rightarrow> string \<Rightarrow> state \<Rightarrow> state" where
  "crawl_iteration e start_url current_url s =
     (let s1 = s\<lparr>urls_to_visit := urls_to_visit s - {current_url}\<rparr> in
      if current_url \<notin> visited_urls s1 then
        (let s2 = s1\<lparr>visited_urls := insert current_url (visited_urls s1)\<rparr>;
             s3 = s2\<lparr>progress := progress s2 @
                        [(card (visited_urls s2), total_urls_discovered s2)]\<rparr>
         in case get_links e current_url start_url s3 of
              (Inl x, s4) \<Rightarrow> s4\<lparr>raised := Some x\<rparr>
            | (Inr new_links, s4) \<Rightarrow>
                (let new_internal_links = new_links - visited_urls s4 - urls_to_visit s4 in
                 s4\<lparr>urls_to_visit := urls_to_visit s4 \<union> new_internal_links,
                    total_urls_discovered :=
                      total_urls_discovered s4 + card new_internal_links\<rparr>))
      else s1)"

text \<open>
  \<^verbatim>\<open>set.pop()\<close> removes an arbitrary element, so an iteration is a relation: any
  element of the frontier may be the one popped. The loop takes an iteration
  while no exception has left it and the frontier is not empty.
\<close>

inductive crawl_step :: "env \<Rightarrow> string \<Rightarrow> state \<Rightarrow> state \<Rightarrow> bool"
  for e :: env and start_url :: string where
  pop: "raised s = None \<Longrightarrow> current_url \<in> urls_to_visit s \<Longrightarrow>
        crawl_step e start_url s (crawl_iteration e start_url current_url s)"

code_pred crawl_step .

text \<open>The states a run from the seed goes through, at the head of the loop.\<close>

definition crawl_run :: "env \<Rightarrow> string \<Rightarrow> state \<Rightarrow> bool" where
  "crawl_run e start_url s = (crawl_step e start_url)\<^sup>*\<^sup>* (crawl_init start_url) s"

text \<open>
  The loop itself, for a given way \<open>pop'\<close> of choosing the element that
  \<^verbatim>\<open>set.pop()\<close> removes, and with a bound on the number of iterations: \<open>None\<close>
  means that the loop has not ended within the bound. The loop ends through
  its condition, when the frontier is empty, or through an exception; the
  field \<open>raised\<close> of the state it ends in tells which.
\<close>

fun crawl_loop ::
  "(string set \<Rightarrow> string) \<Rightarrow> env \<Rightarrow> string \<Rightarrow> nat \<Rightarrow> state \<Rightarrow> state option" where
  "crawl_loop pop' e start_url 0 s =
     (if raised s \<noteq> None \<or> urls_to_visit s = {} then Some s else None)"
| "crawl_loop pop' e start_url (Suc n) s =
     (if raised s \<noteq> None \<or> urls_to_visit s = {} then Some s
      else crawl_loop pop' e start_url n
             (crawl_iteration e start_url (pop' (urls_to_visit s)) s))"

definition crawl_website ::
  "(string set \<Rightarrow> string) \<Rightarrow> env \<Rightarrow> string \<Rightarrow> nat \<Rightarrow> state option" where
  "crawl_website pop' e start_url fuel = crawl_loop pop' e start_url fuel (crawl_init start_url)"

section \<open>The classifier and the dispatch as the specification words them\<close>

text \<open>
  The specification describes the link extractor through a three-way
  classification of a resolved URL against the base host, and a dispatch on the
  class. These two definitions follow its words; the theorems compare them
  with \<open>handle_href\<close> and \<open>get_links\<close>, which follow the code.
\<close>

datatype link_class = Internal | External | Rejected

definition classify_spec :: "string \<Rightarrow> string \<Rightarrow> link_class" where
  "classify_spec url base_host =
     (if should_skip_url url \<or> \<not> is_valid_landing_page url then Rejected
      else if netloc (urlparse url) = base_host then Internal
      else if startswith url ''http'' then External
      else Rejected)"

definition dispatch_spec ::
  "string \<Rightarrow> string \<Rightarrow> string \<Rightarrow> string set \<times> (string \<times> string) list
     \<Rightarrow> string set \<times> (string \<times> string) list" where
  "dispatch_spec resolved_url page_url base_host acc =
     (case classify_spec resolved_url base_host of
        Rejected \<Rightarrow> acc
      | Internal \<Rightarrow> (insert resolved_url (fst acc), snd acc)
      | External \<Rightarrow> (fst acc, snd acc @ [(resolved_url, page_url)]))"

text \<open>
  The resolved URLs of the hrefs of a page that the loop gets to: those before
  the first href whose resolution raises.
\<close>

fun resolved_prefix :: "env \<Rightarrow> string \<Rightarrow> string list \<Rightarrow> string list" where
  "resolved_prefix e url [] = []"
| "resolved_prefix e url (href # rest) =
     (case urljoin e url href of
        None \<Rightarrow> []
      | Some full_url \<Rightarrow> full_url # resolved_prefix e url rest)"

section \<open>Two small sites\<close>

text \<open>
  A site of three pages used to run the definitions. The seed page links to two
  internal pages (one of them twice), to an external site, to a PDF, to a
  fragment of a page and to a mail address; the second page links back to the
  seed and to two external sites; the third page answers with status 404, and
  a feed is served with a content type that is not HTML. Every other URL
  cannot be reached. All hrefs are absolute, and \<^verbatim>\<open>urljoin\<close> gives an absolute
  href back as it is.
\<close>

definition site_get :: "string \<Rightarrow> http_result" where
  "site_get u =
     (if u = ''https://a.com'' then
        Response 200 (Some ''text/html; charset=utf-8'')
          [''https://a.com/p2'', ''https://b.com'', ''https://a.com/p3'',
           ''https://a.com/doc.pdf'', ''https://a.com/p2#top'', ''mailto:me@a.com'',
           ''https://a.com/p2'']
      else if u = ''https://a.com/p2'' then
        Response 200 (Some ''text/html'')
          [''https://a.com'', ''https://b.com'', ''https://c.com/x'']
      else if u = ''https://a.com/p3'' then
        Response 404 (Some ''text/html'') [''https://a.com/p4'']
      else if u = ''https://a.com/feed'' then
        Response 200 (Some ''application/rss+xml'') [''https://a.com/p4'']
      else RequestException)"

text \<open>
  A way of popping for the runs on the sites: the first URL of a list of
  preferences that is in the frontier, and any element of the frontier when
  none of them is.
\<close>

definition pop_first :: "string list \<Rightarrow> string set \<Rightarrow> string" where
  "pop_first prefs S =
     (case filter (\<lambda>x. x \<in> S) prefs of y # ys \<Rightarrow> y | [] \<Rightarrow> (SOME x. x \<in> S))"

definition site :: env where
  "site = \<lparr>http_get = site_get, urljoin = (\<lambda>base href. Some href)\<rparr>"

text \<open>
  A second site, with a page that holds an href that \<^verbatim>\<open>urljoin\<close> rejects
  (\<^verbatim>\<open>http://[::1\<close>, an opening bracket with no closing one: \<^verbatim>\<open>ValueError\<close>) after
  an internal and an external link and before another external link, and a
  page answered with status 300 and an HTML body.
\<close>

definition faulty_get :: "string \<Rightarrow> http_result" where
  "faulty_get u =
     (if u = ''https://s.com'' then
        Response 200 (Some ''text/html'') [''https://s.com/p2'', ''https://s.com/p3'']
      else if u = ''https://s.com/p2'' then
        Response 200 (Some ''text/html'')
          [''https://s.com/p4'', ''https://e.com'', ''http://[::1'', ''https://d.com'']
      else if u = ''https://s.com/p3'' then
        Response 300 (Some ''text/html'') [''https://s.com/p5'']
      else RequestException)"

definition faulty_site :: env where
  "faulty_site =
     \<lparr>http_get = faulty_get,
      urljoin = (\<lambda>base href. if href = ''http://[::1'' then None else Some href)\<rparr>"

section \<open>Facts about the string operations\<close>





lemma startswith_iff: "startswith s pre \<longleftrightarrow> (\<exists>post. s = pre @ post)"
  unfolding startswith_def
  by (metis append_eq_conv_conj append_take_drop_id)


lemma str_contains_iff: "str_contains sub s \<longleftrightarrow> (\<exists>pre post. s = pre @ sub @ post)"
proof (induction s)
  case Nil
  then show ?case by auto
next
  case (Cons c cs)
  show ?case
  proof
    assume "str_contains sub (c # cs)"
    then consider "startswith (c # cs) sub" | "str_contains sub cs" by auto
    then show "\<exists>pre post. c # cs = pre @ sub @ post"
    proof cases
      case 1
      then obtain post where "c # cs = sub @ post" by (auto simp: startswith_iff)
      then have "c # cs = [] @ sub @ post" by simp
      then show ?thesis by blast
    next
      case 2
      then obtain pre post where "cs = pre @ sub @ post" using Cons.IH by blast
      then have "c # cs = (c # pre) @ sub @ post" by simp
      then show ?thesis by blast
    qed
  next
    assume "\<exists>pre post. c # cs = pre @ sub @ post"
    then obtain pre post where eq: "c # cs = pre @ sub @ post" by blast
    show "str_contains sub (c # cs)"
    proof (cases pre)
      case Nil
      with eq have "startswith (c # cs) sub" by (auto simp: startswith_iff)
      then show ?thesis by simp
    next
      case (Cons p ps)
      with eq have "cs = ps @ sub @ post" by simp
      then have "str_contains sub cs" using Cons.IH by blast
      then show ?thesis by simp
    qed
  qed
qed

lemma str_contains_char: "str_contains [c] s \<longleftrightarrow> c \<in> set s"
  by (induction s) (auto simp: startswith_def)

section \<open>The parsed path does not depend on the query or the fragment\<close>












section \<open>The URL classifier: skipped extensions and landing pages\<close>

lemmas url_defs = urlparse_def urlsplit_def split_scheme_def splitnetloc_def
  split_once_def netloc_delim_def lower_def lower_char_def ascii_upper_def ascii_lower_def
  scheme_chars_def uses_params_def c0_control_or_space_def unsafe_url_byte_def
  splitparams_def



text \<open>
  C8. For every URL string, \<open>is_valid_landing_page\<close> returns false exactly when
  the character \<^verbatim>\<open>#\<close> occurs in the string or \<^verbatim>\<open>et_blog\<close> is a substring of it (a
  test on the whole string, with no parsing), and true otherwise. In particular
  it is false for \<^verbatim>\<open>https://x.com/a#section\<close> and \<^verbatim>\<open>https://x.com/et_blog/post\<close> and
  true for \<^verbatim>\<open>https://x.com/a\<close>.
\<close>

theorem is_valid_landing_page_spec:
  "(is_valid_landing_page url = False \<longleftrightarrow>
      CHR ''#'' \<in> set url \<or> (\<exists>pre post. url = pre @ ''et_blog'' @ post))
   \<and> (is_valid_landing_page url = True \<longleftrightarrow>
      \<not> (CHR ''#'' \<in> set url \<or> (\<exists>pre post. url = pre @ ''et_blog'' @ post)))
   \<and> is_valid_landing_page ''https://x.com/a#section'' = False
   \<and> is_valid_landing_page ''https://x.com/et_blog/post'' = False
   \<and> is_valid_landing_page ''https://x.com/a'' = True"
proof -
  have a: "is_valid_landing_page url = False \<longleftrightarrow>
      CHR ''#'' \<in> set url \<or> (\<exists>pre post. url = pre @ ''et_blog'' @ post)"
    unfolding is_valid_landing_page_def
    using str_contains_iff [of "''et_blog''" url] str_contains_char [of "CHR ''#''" url]
    by simp
  then have b: "is_valid_landing_page url = True \<longleftrightarrow>
      \<not> (CHR ''#'' \<in> set url \<or> (\<exists>pre post. url = pre @ ''et_blog'' @ post))"
    by auto
  have c: "is_valid_landing_page ''https://x.com/a#section'' = False"
    by (simp add: is_valid_landing_page_def startswith_def)
  have d: "is_valid_landing_page ''https://x.com/et_blog/post'' = False"
    by (simp add: is_valid_landing_page_def startswith_def)
  have e: "is_valid_landing_page ''https://x.com/a'' = True"
    by (simp add: is_valid_landing_page_def startswith_def)
  from a b c d e show ?thesis by blast
qed

theorem is_valid_landing_page_spec_witness:
  "is_valid_landing_page ''https://x.com/blog/my_et_blog_post?p=1'' = False
   \<and> is_valid_landing_page ''https://x.com/page?q=a%23b#'' = False
   \<and> CHR ''#'' \<notin> set ''https://x.com/et-blog/ET_BLOG''
   \<and> is_valid_landing_page ''https://x.com/et-blog/ET_BLOG'' = True"
proof -
  have "''https://x.com/blog/my_et_blog_post?p=1''
      = ''https://x.com/blog/my_'' @ ''et_blog'' @ ''_post?p=1''" by simp
  then have "\<exists>pre post. ''https://x.com/blog/my_et_blog_post?p=1'' = pre @ ''et_blog'' @ post"
    by blast
  with is_valid_landing_page_spec [of "''https://x.com/blog/my_et_blog_post?p=1''"]
  have a: "is_valid_landing_page ''https://x.com/blog/my_et_blog_post?p=1'' = False" by blast
  have "CHR ''#'' \<in> set ''https://x.com/page?q=a%23b#''" by simp
  with is_valid_landing_page_spec [of "''https://x.com/page?q=a%23b#''"]
  have b: "is_valid_landing_page ''https://x.com/page?q=a%23b#'' = False" by blast
  have c: "CHR ''#'' \<notin> set ''https://x.com/et-blog/ET_BLOG''" by simp
  have "\<not> str_contains ''et_blog'' ''https://x.com/et-blog/ET_BLOG''"
    by (simp add: startswith_def)
  then have "\<not> (\<exists>pre post. ''https://x.com/et-blog/ET_BLOG'' = pre @ ''et_blog'' @ post)"
    using str_contains_iff [of "''et_blog''" "''https://x.com/et-blog/ET_BLOG''"] by blast
  with c is_valid_landing_page_spec [of "''https://x.com/et-blog/ET_BLOG''"]
  have d: "is_valid_landing_page ''https://x.com/et-blog/ET_BLOG'' = True" by blast
  from a b c d show ?thesis by blast
qed

section \<open>Facts about the link extractor\<close>

lemma get_links_frame:
  "visited_urls (snd (get_links e u b s)) = visited_urls s"
  "urls_to_visit (snd (get_links e u b s)) = urls_to_visit s"
  "total_urls_discovered (snd (get_links e u b s)) = total_urls_discovered s"
  "progress (snd (get_links e u b s)) = progress s"
  "raised (snd (get_links e u b s)) = raised s"
  "requests (snd (get_links e u b s)) = requests s @ [u]"
  by (auto simp: get_links_def Let_def
      split: http_result.splits prod.splits option.splits)

lemma handle_href_dispatch:
  "urljoin e url href = Some full_url \<Longrightarrow>
   handle_href e url base_url acc href =
     Inr (dispatch_spec full_url url (netloc (urlparse base_url)) acc)"
  by (cases acc) (simp add: handle_href_def dispatch_spec_def classify_spec_def Let_def)

lemma handle_href_raises:
  "urljoin e url href = None \<Longrightarrow> handle_href e url base_url acc href = Inl ValueError"
  by (cases acc) (simp add: handle_href_def)

lemma handle_href_finite:
  "handle_href e u b acc h = Inr acc' \<Longrightarrow> finite (fst acc) \<Longrightarrow> finite (fst acc')"
  by (cases acc) (auto simp: handle_href_def Let_def split: option.splits if_splits)

lemma handle_hrefs_finite:
  "finite (fst acc) \<Longrightarrow> finite (fst (snd (handle_hrefs e u b hs acc)))"
proof (induction hs arbitrary: acc)
  case Nil
  then show ?case by simp
next
  case (Cons h hs)
  show ?case
  proof (cases "handle_href e u b acc h")
    case (Inl x)
    with Cons.prems show ?thesis by simp
  next
    case (Inr acc')
    from handle_href_finite [OF Inr Cons.prems] have "finite (fst acc')" .
    from Cons.IH [OF this] Inr show ?thesis by simp
  qed
qed

lemma get_links_finite: "finite (returned_links (fst (get_links e u b s)))"
proof -
  have "finite (fst (snd (handle_hrefs e u b hs ({}, X))))" for X hs
    by (rule handle_hrefs_finite) simp
  then show ?thesis
    by (auto simp: get_links_def returned_links_def Let_def
        split: http_result.splits prod.splits option.splits)
       (metis fst_conv snd_conv)
qed

lemma handle_href_internal:
  "handle_href e u b acc h = Inr acc' \<Longrightarrow> x \<in> fst acc' \<Longrightarrow>
     x \<in> fst acc \<or> (\<not> should_skip_url x \<and> is_valid_landing_page x
                     \<and> netloc (urlparse x) = netloc (urlparse b))"
  by (cases acc) (auto simp: handle_href_def Let_def split: option.splits if_splits)

lemma handle_hrefs_internal:
  "x \<in> fst (snd (handle_hrefs e u b hs acc)) \<Longrightarrow>
     x \<in> fst acc \<or> (\<not> should_skip_url x \<and> is_valid_landing_page x
                     \<and> netloc (urlparse x) = netloc (urlparse b))"
proof (induction hs arbitrary: acc)
  case Nil
  then show ?case by simp
next
  case (Cons h hs)
  show ?case
  proof (cases "handle_href e u b acc h")
    case (Inl y)
    with Cons.prems show ?thesis by simp
  next
    case (Inr acc')
    with Cons.prems have "x \<in> fst (snd (handle_hrefs e u b hs acc'))" by simp
    from Cons.IH [OF this] handle_href_internal [OF Inr, of x] show ?thesis by blast
  qed
qed

lemma get_links_internal:
  assumes "x \<in> returned_links (fst (get_links e u b s))"
  shows "\<not> should_skip_url x \<and> is_valid_landing_page x
       \<and> netloc (urlparse x) = netloc (urlparse b)"
proof -
  from assms obtain hs where
    "x \<in> fst (snd (handle_hrefs e u b hs ({}, external_links s)))"
    by (auto simp: get_links_def returned_links_def Let_def
        split: http_result.splits if_splits prod.splits option.splits)
       (metis fst_conv snd_conv)
  from handle_hrefs_internal [OF this] show ?thesis by simp
qed

lemma handle_href_external:
  "handle_href e u b acc h = Inr acc' \<Longrightarrow> p \<in> set (snd acc') \<Longrightarrow>
     p \<in> set (snd acc) \<or> (snd p = u \<and> netloc (urlparse (fst p)) \<noteq> netloc (urlparse b)
        \<and> startswith (fst p) ''http'' \<and> \<not> should_skip_url (fst p)
        \<and> is_valid_landing_page (fst p))"
  by (cases acc) (auto simp: handle_href_def Let_def split: option.splits if_splits)

lemma handle_hrefs_external:
  "p \<in> set (snd (snd (handle_hrefs e u b hs acc))) \<Longrightarrow>
     p \<in> set (snd acc) \<or> (snd p = u \<and> netloc (urlparse (fst p)) \<noteq> netloc (urlparse b)
        \<and> startswith (fst p) ''http'' \<and> \<not> should_skip_url (fst p)
        \<and> is_valid_landing_page (fst p))"
proof (induction hs arbitrary: acc)
  case Nil
  then show ?case by simp
next
  case (Cons h hs)
  show ?case
  proof (cases "handle_href e u b acc h")
    case (Inl y)
    with Cons.prems show ?thesis by simp
  next
    case (Inr acc')
    with Cons.prems have "p \<in> set (snd (snd (handle_hrefs e u b hs acc')))" by simp
    from Cons.IH [OF this] handle_href_external [OF Inr, of p] show ?thesis by blast
  qed
qed

lemma get_links_external:
  assumes "p \<in> set (external_links (snd (get_links e u b s)))"
  shows "p \<in> set (external_links s) \<or> (snd p = u
        \<and> netloc (urlparse (fst p)) \<noteq> netloc (urlparse b)
        \<and> startswith (fst p) ''http'' \<and> \<not> should_skip_url (fst p)
        \<and> is_valid_landing_page (fst p))"
proof -
  from assms consider "p \<in> set (external_links s)"
    | hs where "p \<in> set (snd (snd (handle_hrefs e u b hs ({}, external_links s))))"
    by (auto simp: get_links_def Let_def
        split: http_result.splits if_splits prod.splits option.splits)
       (metis snd_conv)+
  then show ?thesis
  proof cases
    case 1
    then show ?thesis by simp
  next
    case 2
    from handle_hrefs_external [OF this] show ?thesis by simp
  qed
qed

lemma dispatch_spec_fst_indep:
  "fst (dispatch_spec f u B (I, X)) = fst (dispatch_spec f u B (I, X'))"
  by (simp add: dispatch_spec_def split: link_class.splits)

lemma handle_hrefs_indep:
  "fst (handle_hrefs e u b hs (I, X)) = fst (handle_hrefs e u b hs (I, X'))
   \<and> fst (snd (handle_hrefs e u b hs (I, X))) = fst (snd (handle_hrefs e u b hs (I, X')))"
proof (induction hs arbitrary: I X X')
  case Nil
  show ?case by simp
next
  case (Cons h hs)
  show ?case
  proof (cases "urljoin e u h")
    case None
    then show ?thesis by (simp add: handle_href_raises)
  next
    case (Some f)
    let ?B = "netloc (urlparse b)"
    obtain I1 X1 where a: "dispatch_spec f u ?B (I, X) = (I1, X1)" by fastforce
    obtain I2 X2 where b: "dispatch_spec f u ?B (I, X') = (I2, X2)" by fastforce
    from a b dispatch_spec_fst_indep [of f u ?B I X X'] have "I1 = I2" by simp
    with a b Some Cons.IH [of I1 X1 X2] show ?thesis
      by (simp add: handle_href_dispatch)
  qed
qed

lemma handle_hrefs_eq:
  "handle_hrefs e url base_url hs (I, X) =
     ((if list_all (\<lambda>h. urljoin e url h \<noteq> None) hs then None else Some ValueError),
      I \<union> {f \<in> set (resolved_prefix e url hs).
              classify_spec f (netloc (urlparse base_url)) = Internal},
      X @ map (\<lambda>f. (f, url))
            (filter (\<lambda>f. classify_spec f (netloc (urlparse base_url)) = External)
               (resolved_prefix e url hs)))"
proof (induction hs arbitrary: I X)
  case Nil
  show ?case by simp
next
  case (Cons h hs)
  show ?case
  proof (cases "urljoin e url h")
    case None
    then show ?thesis by (simp add: handle_href_raises)
  next
    case (Some f)
    show ?thesis
    proof (cases "classify_spec f (netloc (urlparse base_url))")
      case Internal
      then have "handle_href e url base_url (I, X) h = Inr (insert f I, X)"
        using Some by (simp add: handle_href_dispatch dispatch_spec_def)
      then show ?thesis using Some Internal Cons.IH [of "insert f I" X] by auto
    next
      case External
      then have "handle_href e url base_url (I, X) h = Inr (I, X @ [(f, url)])"
        using Some by (simp add: handle_href_dispatch dispatch_spec_def)
      then show ?thesis using Some External Cons.IH [of I "X @ [(f, url)]"] by auto
    next
      case Rejected
      then have "handle_href e url base_url (I, X) h = Inr (I, X)"
        using Some by (simp add: handle_href_dispatch dispatch_spec_def)
      then show ?thesis using Some Rejected Cons.IH [of I X] by auto
    qed
  qed
qed

lemma get_links_html:
  assumes "http_get e url = Response status header hs"
    and "\<not> raise_for_status status"
    and "str_contains ''text/html'' (case header of None \<Rightarrow> [] | Some v \<Rightarrow> v)"
  shows "get_links e url base_url s =
     ((case fst (handle_hrefs e url base_url hs ({}, external_links s)) of
         None \<Rightarrow> Inr (fst (snd (handle_hrefs e url base_url hs ({}, external_links s))))
       | Some x \<Rightarrow> Inl x),
      s\<lparr>requests := requests s @ [url],
        external_links :=
          snd (snd (handle_hrefs e url base_url hs ({}, external_links s)))\<rparr>)"
  using assms
  by (simp add: get_links_def Let_def del: str_contains.simps
      split: prod.splits option.splits)

lemma get_links_request_exception:
  "http_get e u = RequestException \<Longrightarrow>
   get_links e u b s =
     (Inr {}, s\<lparr>requests := requests s @ [u], messages := messages s @ [Error u]\<rparr>)"
  by (simp add: get_links_def)

lemma get_links_http_error:
  "http_get e u = Response status header hs \<Longrightarrow> raise_for_status status \<Longrightarrow>
   get_links e u b s =
     (Inr {}, s\<lparr>requests := requests s @ [u], messages := messages s @ [Error u]\<rparr>)"
  by (simp add: get_links_def)

lemma get_links_other_exception:
  "http_get e u = OtherException \<Longrightarrow>
   get_links e u b s = (Inl OtherError, s\<lparr>requests := requests s @ [u]\<rparr>)"
  by (simp add: get_links_def)

lemma get_links_not_html:
  "http_get e u = Response status header hs \<Longrightarrow> \<not> raise_for_status status \<Longrightarrow>
   \<not> str_contains ''text/html'' (case header of None \<Rightarrow> [] | Some v \<Rightarrow> v) \<Longrightarrow>
   get_links e u b s =
     (Inr {}, s\<lparr>requests := requests s @ [u], messages := messages s @ [Warning u]\<rparr>)"
  by (simp add: get_links_def del: str_contains.simps)

lemma get_links_fst_indep: "fst (get_links e u b s) = fst (get_links e u b s')"
proof (cases "http_get e u")
  case RequestException
  then show ?thesis by (simp add: get_links_request_exception)
next
  case OtherException
  then show ?thesis by (simp add: get_links_other_exception)
next
  case (Response status header hs)
  show ?thesis
  proof (cases "raise_for_status status")
    case True
    with Response show ?thesis by (simp add: get_links_http_error)
  next
    case False
    show ?thesis
    proof (cases "str_contains ''text/html'' (case header of None \<Rightarrow> [] | Some v \<Rightarrow> v)")
      case True
      from handle_hrefs_indep [of e u b hs "{}" "external_links s" "external_links s'"]
      show ?thesis
        by (simp add: get_links_html [OF Response False True] del: str_contains.simps
            split: option.splits)
    next
      case no: False
      from get_links_not_html [OF Response False no] show ?thesis by simp
    qed
  qed
qed

section \<open>Facts about one iteration of the crawl loop\<close>

lemma crawl_iteration_seen:
  "u \<in> visited_urls s \<Longrightarrow>
   crawl_iteration e b u s = s\<lparr>urls_to_visit := urls_to_visit s - {u}\<rparr>"
  by (simp add: crawl_iteration_def)

lemma crawl_iteration_fresh:
  fixes e :: env and b u :: string and s :: state
  assumes "u \<notin> visited_urls s"
  defines "s' \<equiv> crawl_iteration e b u s"
  defines "L \<equiv> returned_links (fst (get_links e u b s))"
  shows "visited_urls s' = insert u (visited_urls s)"
    and "urls_to_visit s' = (urls_to_visit s - {u})
           \<union> (L - insert u (visited_urls s) - (urls_to_visit s - {u}))"
    and "total_urls_discovered s' = total_urls_discovered s
           + card (L - insert u (visited_urls s) - (urls_to_visit s - {u}))"
    and "requests s' = requests s @ [u]"
    and "progress s' = progress s @ [(card (insert u (visited_urls s)), total_urls_discovered s)]"
    and "raised s' = (case fst (get_links e u b s) of Inl x \<Rightarrow> Some x | Inr l \<Rightarrow> raised s)"
proof -
  let ?s3 = "s\<lparr>urls_to_visit := urls_to_visit s - {u},
               visited_urls := insert u (visited_urls s),
               progress := progress s @ [(card (insert u (visited_urls s)), total_urls_discovered s)]\<rparr>"
  let ?r = "fst (get_links e u b s)"
  let ?s4 = "snd (get_links e u b ?s3)"
  have r: "fst (get_links e u b ?s3) = ?r" by (rule get_links_fst_indep)
  have s': "s' = (case ?r of
                    Inl x \<Rightarrow> ?s4\<lparr>raised := Some x\<rparr>
                  | Inr new_links \<Rightarrow>
                      ?s4\<lparr>urls_to_visit := urls_to_visit ?s4 \<union>
                              (new_links - visited_urls ?s4 - urls_to_visit ?s4),
                           total_urls_discovered := total_urls_discovered ?s4
                              + card (new_links - visited_urls ?s4 - urls_to_visit ?s4)\<rparr>)"
    using assms(1) r unfolding s'_def crawl_iteration_def
    by (simp add: Let_def case_prod_beta split: sum.splits prod.splits)
  show "visited_urls s' = insert u (visited_urls s)"
    by (simp add: s' get_links_frame split: sum.splits)
  show "urls_to_visit s' = (urls_to_visit s - {u})
           \<union> (L - insert u (visited_urls s) - (urls_to_visit s - {u}))"
    by (simp add: s' L_def returned_links_def get_links_frame split: sum.splits)
  show "total_urls_discovered s' = total_urls_discovered s
           + card (L - insert u (visited_urls s) - (urls_to_visit s - {u}))"
    by (simp add: s' L_def returned_links_def get_links_frame split: sum.splits)
  show "requests s' = requests s @ [u]"
    by (simp add: s' get_links_frame split: sum.splits)
  show "progress s' = progress s @ [(card (insert u (visited_urls s)), total_urls_discovered s)]"
    by (simp add: s' get_links_frame split: sum.splits)
  show "raised s' = (case ?r of Inl x \<Rightarrow> Some x | Inr l \<Rightarrow> raised s)"
    by (simp add: s' get_links_frame split: sum.splits)
qed

lemma crawl_iteration_no_links:
  assumes fresh: "u \<notin> visited_urls s"
    and gl: "\<And>t. get_links e u b t =
               (Inr {}, t\<lparr>requests := requests t @ [u], messages := messages t @ [m]\<rparr>)"
  shows "visited_urls (crawl_iteration e b u s) = insert u (visited_urls s)
    \<and> urls_to_visit (crawl_iteration e b u s) = urls_to_visit s - {u}
    \<and> external_links (crawl_iteration e b u s) = external_links s
    \<and> messages (crawl_iteration e b u s) = messages s @ [m]
    \<and> total_urls_discovered (crawl_iteration e b u s) = total_urls_discovered s
    \<and> raised (crawl_iteration e b u s) = raised s"
  using fresh by (simp add: crawl_iteration_def gl)

section \<open>Invariants of a run\<close>

lemma crawl_run_init: "crawl_run e b (crawl_init b)"
  by (simp add: crawl_run_def)

lemma crawl_run_step:
  "crawl_run e b s \<Longrightarrow> raised s = None \<Longrightarrow> u \<in> urls_to_visit s \<Longrightarrow>
   crawl_run e b (crawl_iteration e b u s)"
  unfolding crawl_run_def
  by (rule rtranclp.rtrancl_into_rtrancl) (auto intro: crawl_step.pop)

lemma crawl_run_invariant:
  assumes run: "crawl_run e b s"
    and init: "P (crawl_init b)"
    and pres: "\<And>s u. crawl_run e b s \<Longrightarrow> P s \<Longrightarrow> u \<in> urls_to_visit s
                 \<Longrightarrow> P (crawl_iteration e b u s)"
  shows "P s"
  using run unfolding crawl_run_def
proof (induction rule: rtranclp_induct)
  case base
  show ?case by (rule init)
next
  case (step y z)
  from step.hyps(2) obtain u where u: "u \<in> urls_to_visit y" and z: "z = crawl_iteration e b u y"
    by (auto elim: crawl_step.cases)
  from step.hyps(1) have "crawl_run e b y" by (simp add: crawl_run_def)
  then show ?case unfolding z using step.IH u by (rule pres)
qed

lemma crawl_run_disjoint:
  assumes "crawl_run e b s"
  shows "finite (urls_to_visit s) \<and> finite (visited_urls s)
         \<and> urls_to_visit s \<inter> visited_urls s = {}"
  using assms
proof (rule crawl_run_invariant)
  show "finite (urls_to_visit (crawl_init b)) \<and> finite (visited_urls (crawl_init b))
         \<and> urls_to_visit (crawl_init b) \<inter> visited_urls (crawl_init b) = {}"
    by (simp add: crawl_init_def)
next
  fix s :: state and u :: string
  assume inv: "finite (urls_to_visit s) \<and> finite (visited_urls s)
         \<and> urls_to_visit s \<inter> visited_urls s = {}"
    and u: "u \<in> urls_to_visit s"
  then have fresh: "u \<notin> visited_urls s" by auto
  have fin: "finite (returned_links (fst (get_links e u b s)))" by (rule get_links_finite)
  show "finite (urls_to_visit (crawl_iteration e b u s))
         \<and> finite (visited_urls (crawl_iteration e b u s))
         \<and> urls_to_visit (crawl_iteration e b u s) \<inter> visited_urls (crawl_iteration e b u s) = {}"
    using inv fin by (auto simp: crawl_iteration_fresh [OF fresh])
qed

lemma crawl_run_fresh:
  "crawl_run e b s \<Longrightarrow> u \<in> urls_to_visit s \<Longrightarrow> u \<notin> visited_urls s"
  using crawl_run_disjoint [of e b s] by auto

lemma crawl_iteration_disjoint:
  assumes "crawl_run e b s" and "u \<in> urls_to_visit s"
  shows "urls_to_visit (crawl_iteration e b u s) \<inter> visited_urls (crawl_iteration e b u s) = {}"
proof -
  from assms have fresh: "u \<notin> visited_urls s" by (rule crawl_run_fresh)
  from crawl_run_disjoint [OF assms(1)] show ?thesis
    by (auto simp: crawl_iteration_fresh [OF fresh])
qed

lemma crawl_run_total:
  assumes "crawl_run e b s"
  shows "total_urls_discovered s = card (visited_urls s) + card (urls_to_visit s)"
  using assms
proof (rule crawl_run_invariant)
  show "total_urls_discovered (crawl_init b)
        = card (visited_urls (crawl_init b)) + card (urls_to_visit (crawl_init b))"
    by (simp add: crawl_init_def)
next
  fix s :: state and u :: string
  assume run: "crawl_run e b s"
    and inv: "total_urls_discovered s = card (visited_urls s) + card (urls_to_visit s)"
    and u: "u \<in> urls_to_visit s"
  from run u have fresh: "u \<notin> visited_urls s" by (rule crawl_run_fresh)
  from crawl_run_disjoint [OF run]
  have finF: "finite (urls_to_visit s)" and finV: "finite (visited_urls s)" by auto
  let ?N = "returned_links (fst (get_links e u b s)) - insert u (visited_urls s)
              - (urls_to_visit s - {u})"
  have finN: "finite ?N" using get_links_finite [of e u b s] by simp
  have "card ((urls_to_visit s - {u}) \<union> ?N) = card (urls_to_visit s - {u}) + card ?N"
    using finF finN by (intro card_Un_disjoint) auto
  moreover have "card (urls_to_visit s - {u}) = card (urls_to_visit s) - 1"
    using u finF by simp
  moreover have "card (urls_to_visit s) > 0"
    using u finF by (auto simp: card_gt_0_iff)
  moreover have "card (insert u (visited_urls s)) = Suc (card (visited_urls s))"
    using fresh finV by simp
  ultimately show "total_urls_discovered (crawl_iteration e b u s)
        = card (visited_urls (crawl_iteration e b u s))
          + card (urls_to_visit (crawl_iteration e b u s))"
    using inv by (simp add: crawl_iteration_fresh [OF fresh])
qed

lemma crawl_run_requests:
  assumes "crawl_run e b s"
  shows "distinct (requests s) \<and> set (requests s) = visited_urls s"
  using assms
proof (rule crawl_run_invariant)
  show "distinct (requests (crawl_init b))
        \<and> set (requests (crawl_init b)) = visited_urls (crawl_init b)"
    by (simp add: crawl_init_def)
next
  fix s :: state and u :: string
  assume run: "crawl_run e b s"
    and inv: "distinct (requests s) \<and> set (requests s) = visited_urls s"
    and u: "u \<in> urls_to_visit s"
  from run u have fresh: "u \<notin> visited_urls s" by (rule crawl_run_fresh)
  show "distinct (requests (crawl_iteration e b u s))
        \<and> set (requests (crawl_iteration e b u s)) = visited_urls (crawl_iteration e b u s)"
    using inv fresh by (simp add: crawl_iteration_fresh [OF fresh])
qed

lemma crawl_run_external:
  assumes "crawl_run e b s"
  shows "\<forall>p \<in> set (external_links s).
           netloc (urlparse (fst p)) \<noteq> netloc (urlparse b) \<and> startswith (fst p) ''http''
           \<and> snd p \<in> visited_urls s"
  using assms
proof (rule crawl_run_invariant)
  show "\<forall>p \<in> set (external_links (crawl_init b)).
           netloc (urlparse (fst p)) \<noteq> netloc (urlparse b) \<and> startswith (fst p) ''http''
           \<and> snd p \<in> visited_urls (crawl_init b)"
    by (simp add: crawl_init_def)
next
  fix s :: state and u :: string
  assume run: "crawl_run e b s"
    and inv: "\<forall>p \<in> set (external_links s).
           netloc (urlparse (fst p)) \<noteq> netloc (urlparse b) \<and> startswith (fst p) ''http''
           \<and> snd p \<in> visited_urls s"
    and u: "u \<in> urls_to_visit s"
  from run u have fresh: "u \<notin> visited_urls s" by (rule crawl_run_fresh)
  show "\<forall>p \<in> set (external_links (crawl_iteration e b u s)).
           netloc (urlparse (fst p)) \<noteq> netloc (urlparse b) \<and> startswith (fst p) ''http''
           \<and> snd p \<in> visited_urls (crawl_iteration e b u s)"
  proof
    fix p assume p: "p \<in> set (external_links (crawl_iteration e b u s))"
    let ?s3 = "s\<lparr>urls_to_visit := urls_to_visit s - {u},
               visited_urls := insert u (visited_urls s),
               progress := progress s @ [(card (insert u (visited_urls s)), total_urls_discovered s)]\<rparr>"
    from p fresh have "p \<in> set (external_links (snd (get_links e u b ?s3)))"
      by (simp add: crawl_iteration_def Let_def case_prod_beta split: sum.splits prod.splits)
    from get_links_external [OF this] inv
    show "netloc (urlparse (fst p)) \<noteq> netloc (urlparse b) \<and> startswith (fst p) ''http''
           \<and> snd p \<in> visited_urls (crawl_iteration e b u s)"
      by (auto simp: crawl_iteration_fresh [OF fresh])
  qed
qed

lemma crawl_run_frontier_filtered:
  assumes "crawl_run e b s"
  shows "\<forall>u \<in> urls_to_visit s.
           u = b \<or> (\<not> should_skip_url u \<and> is_valid_landing_page u)"
  using assms
proof (rule crawl_run_invariant)
  show "\<forall>u \<in> urls_to_visit (crawl_init b).
           u = b \<or> (\<not> should_skip_url u \<and> is_valid_landing_page u)"
    by (simp add: crawl_init_def)
next
  fix s :: state and u :: string
  assume run: "crawl_run e b s"
    and inv: "\<forall>u \<in> urls_to_visit s.
           u = b \<or> (\<not> should_skip_url u \<and> is_valid_landing_page u)"
    and u: "u \<in> urls_to_visit s"
  from run u have fresh: "u \<notin> visited_urls s" by (rule crawl_run_fresh)
  show "\<forall>v \<in> urls_to_visit (crawl_iteration e b u s).
           v = b \<or> (\<not> should_skip_url v \<and> is_valid_landing_page v)"
    using inv get_links_internal [of _ e u b s]
    by (auto simp: crawl_iteration_fresh [OF fresh])
qed

lemma first_iteration:
  assumes "crawl_step e b (crawl_init b) s1"
  shows "requests s1 = [b] \<and> visited_urls s1 = {b}"
proof -
  from assms obtain u where u: "u \<in> urls_to_visit (crawl_init b)"
    and s1: "s1 = crawl_iteration e b u (crawl_init b)"
    by (auto elim: crawl_step.cases)
  from u have ub: "u = b" by (simp add: crawl_init_def)
  have fresh: "b \<notin> visited_urls (crawl_init b)" by (simp add: crawl_init_def)
  show ?thesis unfolding s1 ub
    by (simp add: crawl_iteration_fresh [OF fresh]) (simp add: crawl_init_def)
qed

lemma crawl_run_universe:
  assumes run: "crawl_run e b s"
    and seed: "b \<in> U"
    and closed: "\<forall>u\<in>U. returned_links (fst (get_links e u b (crawl_init b))) \<subseteq> U"
  shows "urls_to_visit s \<union> visited_urls s \<subseteq> U"
  using run
proof (rule crawl_run_invariant)
  show "urls_to_visit (crawl_init b) \<union> visited_urls (crawl_init b) \<subseteq> U"
    using seed by (simp add: crawl_init_def)
next
  fix s :: state and u :: string
  assume run: "crawl_run e b s"
    and inv: "urls_to_visit s \<union> visited_urls s \<subseteq> U"
    and u: "u \<in> urls_to_visit s"
  from run u have fresh: "u \<notin> visited_urls s" by (rule crawl_run_fresh)
  from u inv have "u \<in> U" by auto
  with closed have "returned_links (fst (get_links e u b (crawl_init b))) \<subseteq> U" by blast
  then have "returned_links (fst (get_links e u b s)) \<subseteq> U"
    using get_links_fst_indep [of e u b s "crawl_init b"] by simp
  with inv \<open>u \<in> U\<close>
  show "urls_to_visit (crawl_iteration e b u s) \<union> visited_urls (crawl_iteration e b u s) \<subseteq> U"
    by (auto simp: crawl_iteration_fresh [OF fresh])
qed

text \<open>When nothing is raised on the pages of the universe, no run is left by an exception.\<close>

lemma crawl_run_not_raised:
  assumes run: "crawl_run e b s"
    and seed: "b \<in> U"
    and closed: "\<forall>u\<in>U. returned_links (fst (get_links e u b (crawl_init b))) \<subseteq> U"
    and quiet: "\<forall>u\<in>U. \<exists>links. fst (get_links e u b (crawl_init b)) = Inr links"
  shows "raised s = None"
  using run
proof (rule crawl_run_invariant)
  show "raised (crawl_init b) = None" by (simp add: crawl_init_def)
next
  fix s :: state and u :: string
  assume run: "crawl_run e b s"
    and inv: "raised s = None"
    and u: "u \<in> urls_to_visit s"
  from run u have fresh: "u \<notin> visited_urls s" by (rule crawl_run_fresh)
  from crawl_run_universe [OF run seed closed] u have "u \<in> U" by auto
  with quiet obtain links where "fst (get_links e u b (crawl_init b)) = Inr links" by blast
  then have "fst (get_links e u b s) = Inr links"
    using get_links_fst_indep [of e u b s "crawl_init b"] by simp
  with inv show "raised (crawl_iteration e b u s) = None"
    by (simp add: crawl_iteration_fresh [OF fresh])
qed

subsection \<open>Termination\<close>

lemma crawl_step_iff:
  "(\<exists>s'. crawl_step e b s s') \<longleftrightarrow> raised s = None \<and> urls_to_visit s \<noteq> {}"
  by (auto elim: crawl_step.cases intro: crawl_step.pop)

lemma crawl_step_wf:
  assumes fin: "finite U"
    and seed: "b \<in> U"
    and closed: "\<forall>u\<in>U. returned_links (fst (get_links e u b (crawl_init b))) \<subseteq> U"
  shows "wf {(s', s). crawl_run e b s \<and> crawl_step e b s s'}"
proof (rule wf_subset [OF wf_measure [of "\<lambda>s. card (U - visited_urls s)"]])
  show "{(s', s). crawl_run e b s \<and> crawl_step e b s s'}
          \<subseteq> measure (\<lambda>s. card (U - visited_urls s))"
  proof clarify
    fix s' s :: state
    assume run: "crawl_run e b s" and st: "crawl_step e b s s'"
    from st obtain u where u: "u \<in> urls_to_visit s" and s': "s' = crawl_iteration e b u s"
      by (auto elim: crawl_step.cases)
    from run u have fresh: "u \<notin> visited_urls s" by (rule crawl_run_fresh)
    from crawl_run_universe [OF run seed closed] u have "u \<in> U" by auto
    with fresh have "U - insert u (visited_urls s) \<subset> U - visited_urls s" by auto
    then have "card (U - insert u (visited_urls s)) < card (U - visited_urls s)"
      using fin by (intro psubset_card_mono) auto
    then show "(s', s) \<in> measure (\<lambda>s. card (U - visited_urls s))"
      by (simp add: s' crawl_iteration_fresh [OF fresh])
  qed
qed

lemma crawl_run_chain:
  assumes "run 0 = crawl_init b" and "\<forall>i. crawl_step e b (run i) (run (Suc i))"
  shows "crawl_run e b (run i)"
proof (induction i)
  case 0
  show ?case by (simp add: assms(1) crawl_run_init)
next
  case (Suc i)
  from assms(2) have "crawl_step e b (run i) (run (Suc i))" by blast
  with Suc show ?case unfolding crawl_run_def by (rule rtranclp.rtrancl_into_rtrancl)
qed

lemma crawl_reaches_end:
  assumes w: "wf {(s', s). crawl_run e b s \<and> crawl_step e b s s'}"
  shows "crawl_run e b s \<Longrightarrow>
         \<exists>t. (crawl_step e b)\<^sup>*\<^sup>* s t \<and> (raised t \<noteq> None \<or> urls_to_visit t = {})"
  using w
proof (induction s rule: wf_induct_rule)
  case (less s)
  show ?case
  proof (cases "raised s \<noteq> None \<or> urls_to_visit s = {}")
    case True
    then show ?thesis by blast
  next
    case False
    then obtain u where u: "u \<in> urls_to_visit s" and r: "raised s = None" by blast
    let ?s' = "crawl_iteration e b u s"
    have st: "crawl_step e b s ?s'" using r u by (rule crawl_step.pop)
    have run': "crawl_run e b ?s'" using less.prems r u by (rule crawl_run_step)
    from less.IH [of ?s'] less.prems st run'
    obtain t where "(crawl_step e b)\<^sup>*\<^sup>* ?s' t"
      and "raised t \<noteq> None \<or> urls_to_visit t = {}" by blast
    with st have "(crawl_step e b)\<^sup>*\<^sup>* s t" by (meson converse_rtranclp_into_rtranclp)
    with \<open>raised t \<noteq> None \<or> urls_to_visit t = {}\<close> show ?thesis by blast
  qed
qed

lemma crawl_step_progress:
  assumes "crawl_step e b s s'"
  shows "(visited_urls s' = visited_urls s \<and> urls_to_visit s' \<subset> urls_to_visit s)
       \<or> (\<exists>u. u \<notin> visited_urls s \<and> visited_urls s' = insert u (visited_urls s))"
proof -
  from assms obtain u where u: "u \<in> urls_to_visit s" and s': "s' = crawl_iteration e b u s"
    by (auto elim: crawl_step.cases)
  show ?thesis
  proof (cases "u \<in> visited_urls s")
    case True
    with u show ?thesis by (auto simp: s' crawl_iteration_seen)
  next
    case False
    then show ?thesis by (auto simp: s' crawl_iteration_fresh [OF False])
  qed
qed

lemma crawl_loop_end:
  assumes "\<forall>S. S \<noteq> {} \<longrightarrow> pop' S \<in> S"
  shows "crawl_loop pop' e b n s = Some t \<Longrightarrow>
         (raised t \<noteq> None \<or> urls_to_visit t = {}) \<and> (crawl_step e b)\<^sup>*\<^sup>* s t"
proof (induction n arbitrary: s)
  case 0
  then show ?case by (auto split: if_splits)
next
  case (Suc n)
  show ?case
  proof (cases "raised s \<noteq> None \<or> urls_to_visit s = {}")
    case True
    with Suc.prems show ?thesis by auto
  next
    case False
    let ?u = "pop' (urls_to_visit s)"
    from False assms have u: "?u \<in> urls_to_visit s" and r: "raised s = None" by auto
    from Suc.prems False
    have "crawl_loop pop' e b n (crawl_iteration e b ?u s) = Some t" by simp
    from Suc.IH [OF this]
    have "raised t \<noteq> None \<or> urls_to_visit t = {}"
      and "(crawl_step e b)\<^sup>*\<^sup>* (crawl_iteration e b ?u s) t"
      by auto
    moreover have "crawl_step e b s (crawl_iteration e b ?u s)"
      using r u by (rule crawl_step.pop)
    ultimately show ?thesis by (meson converse_rtranclp_into_rtranclp)
  qed
qed

lemma crawl_loop_returns:
  assumes fin: "finite U"
    and seed: "b \<in> U"
    and closed: "\<forall>u\<in>U. returned_links (fst (get_links e u b (crawl_init b))) \<subseteq> U"
    and pop: "\<forall>S. S \<noteq> {} \<longrightarrow> pop' S \<in> S"
  shows "crawl_run e b s \<Longrightarrow> card (U - visited_urls s) \<le> n \<Longrightarrow>
         \<exists>t. crawl_loop pop' e b n s = Some t"
proof (induction n arbitrary: s)
  case 0
  then have "U \<subseteq> visited_urls s" using fin by simp
  moreover have "urls_to_visit s \<subseteq> U"
    using crawl_run_universe [OF "0.prems"(1) seed closed] by simp
  moreover have "urls_to_visit s \<inter> visited_urls s = {}"
    using crawl_run_disjoint [OF "0.prems"(1)] by simp
  ultimately have "urls_to_visit s = {}" by blast
  then show ?case by simp
next
  case (Suc n)
  show ?case
  proof (cases "raised s \<noteq> None \<or> urls_to_visit s = {}")
    case True
    then show ?thesis by auto
  next
    case False
    let ?u = "pop' (urls_to_visit s)"
    from False pop have u: "?u \<in> urls_to_visit s" and r: "raised s = None" by auto
    from Suc.prems(1) u have fresh: "?u \<notin> visited_urls s" by (rule crawl_run_fresh)
    from crawl_run_universe [OF Suc.prems(1) seed closed] u have "?u \<in> U" by auto
    with fresh have "U - insert ?u (visited_urls s) \<subset> U - visited_urls s" by auto
    then have "card (U - insert ?u (visited_urls s)) < card (U - visited_urls s)"
      using fin by (intro psubset_card_mono) auto
    with Suc.prems(2)
    have "card (U - visited_urls (crawl_iteration e b ?u s)) \<le> n"
      by (simp add: crawl_iteration_fresh [OF fresh])
    moreover have "crawl_run e b (crawl_iteration e b ?u s)"
      using Suc.prems(1) r u by (rule crawl_run_step)
    ultimately obtain t where "crawl_loop pop' e b n (crawl_iteration e b ?u s) = Some t"
      using Suc.IH by blast
    with False show ?thesis by simp
  qed
qed

section \<open>The two sites, evaluated\<close>

lemma status_simps:
  "raise_for_status 200 = False" "raise_for_status 300 = False" "raise_for_status 404 = True"
  by (simp_all add: raise_for_status_def)

lemma site_urlparse:
  "urlparse ''https://a.com'' = \<lparr>scheme = ''https'', netloc = ''a.com'', path = [], params = [], query = [], fragment = []\<rparr>"
  "urlparse ''https://a.com/p2'' = \<lparr>scheme = ''https'', netloc = ''a.com'', path = ''/p2'', params = [], query = [], fragment = []\<rparr>"
  "urlparse ''https://a.com/p3'' = \<lparr>scheme = ''https'', netloc = ''a.com'', path = ''/p3'', params = [], query = [], fragment = []\<rparr>"
  "urlparse ''https://b.com'' = \<lparr>scheme = ''https'', netloc = ''b.com'', path = [], params = [], query = [], fragment = []\<rparr>"
  "urlparse ''https://c.com/x'' = \<lparr>scheme = ''https'', netloc = ''c.com'', path = ''/x'', params = [], query = [], fragment = []\<rparr>"
  "urlparse ''https://a.com/doc.pdf'' = \<lparr>scheme = ''https'', netloc = ''a.com'', path = ''/doc.pdf'', params = [], query = [], fragment = []\<rparr>"
  "urlparse ''https://a.com/p2#top'' = \<lparr>scheme = ''https'', netloc = ''a.com'', path = ''/p2'', params = [], query = [], fragment = ''top''\<rparr>"
  "urlparse ''mailto:me@a.com'' = \<lparr>scheme = ''mailto'', netloc = [], path = ''me@a.com'', params = [], query = [], fragment = []\<rparr>"
  by (simp_all add: url_defs)

lemma lower_simps:
  "lower [] = []" "lower ''/p2'' = ''/p2''" "lower ''/p3'' = ''/p3''" "lower ''/x'' = ''/x''"
  "lower ''/doc.pdf'' = ''/doc.pdf''" "lower ''me@a.com'' = ''me@a.com''"
  "lower ''/p4'' = ''/p4''" "lower ''/p5'' = ''/p5''"
  by (simp_all add: lower_def lower_char_def ascii_upper_def ascii_lower_def)

lemma site_skip:
  "should_skip_url ''https://a.com'' = False"
  "should_skip_url ''https://a.com/p2'' = False"
  "should_skip_url ''https://a.com/p3'' = False"
  "should_skip_url ''https://b.com'' = False"
  "should_skip_url ''https://c.com/x'' = False"
  "should_skip_url ''https://a.com/doc.pdf'' = True"
  "should_skip_url ''https://a.com/p2#top'' = False"
  "should_skip_url ''mailto:me@a.com'' = False"
  by (simp_all add: should_skip_url_def site_urlparse lower_simps SKIP_EXTENSIONS_def endswith_def)

lemma site_valid:
  "is_valid_landing_page ''https://a.com'' = True"
  "is_valid_landing_page ''https://a.com/p2'' = True"
  "is_valid_landing_page ''https://a.com/p3'' = True"
  "is_valid_landing_page ''https://b.com'' = True"
  "is_valid_landing_page ''https://c.com/x'' = True"
  "is_valid_landing_page ''https://a.com/p2#top'' = False"
  "is_valid_landing_page ''mailto:me@a.com'' = True"
  by (simp_all add: is_valid_landing_page_def startswith_def)

lemma site_http_get:
  "http_get site ''https://a.com'' = Response 200 (Some ''text/html; charset=utf-8'')
          [''https://a.com/p2'', ''https://b.com'', ''https://a.com/p3'',
           ''https://a.com/doc.pdf'', ''https://a.com/p2#top'', ''mailto:me@a.com'',
           ''https://a.com/p2'']"
  "http_get site ''https://a.com/p2'' = Response 200 (Some ''text/html'')
          [''https://a.com'', ''https://b.com'', ''https://c.com/x'']"
  "http_get site ''https://a.com/p3'' = Response 404 (Some ''text/html'') [''https://a.com/p4'']"
  "http_get site ''https://a.com/feed'' =
     Response 200 (Some ''application/rss+xml'') [''https://a.com/p4'']"
  "http_get site ''https://a.com/down'' = RequestException"
  by (simp_all add: site_def site_get_def)

lemma site_content_type:
  "str_contains ''text/html'' ''text/html; charset=utf-8'' = True"
  "str_contains ''text/html'' ''text/html'' = True"
  "str_contains ''text/html'' ''application/rss+xml'' = False"
  by (simp_all add: startswith_def)

lemma site_handle_href:
  "handle_href site u ''https://a.com'' (I, X) ''https://a.com'' = Inr (insert ''https://a.com'' I, X)"
  "handle_href site u ''https://a.com'' (I, X) ''https://a.com/p2'' = Inr (insert ''https://a.com/p2'' I, X)"
  "handle_href site u ''https://a.com'' (I, X) ''https://a.com/p3'' = Inr (insert ''https://a.com/p3'' I, X)"
  "handle_href site u ''https://a.com'' (I, X) ''https://b.com'' = Inr (I, X @ [(''https://b.com'', u)])"
  "handle_href site u ''https://a.com'' (I, X) ''https://c.com/x'' = Inr (I, X @ [(''https://c.com/x'', u)])"
  "handle_href site u ''https://a.com'' (I, X) ''https://a.com/doc.pdf'' = Inr (I, X)"
  "handle_href site u ''https://a.com'' (I, X) ''https://a.com/p2#top'' = Inr (I, X)"
  "handle_href site u ''https://a.com'' (I, X) ''mailto:me@a.com'' = Inr (I, X)"
  by (simp_all add: handle_href_def site_def site_skip site_valid site_urlparse startswith_def)

lemma site_get_links:
  "get_links site ''https://a.com'' ''https://a.com'' s =
     (Inr {''https://a.com/p2'', ''https://a.com/p3''},
      s\<lparr>requests := requests s @ [''https://a.com''],
        external_links := external_links s @ [(''https://b.com'', ''https://a.com'')]\<rparr>)"
  "get_links site ''https://a.com/p2'' ''https://a.com'' s =
     (Inr {''https://a.com''},
      s\<lparr>requests := requests s @ [''https://a.com/p2''],
        external_links := external_links s @ [(''https://b.com'', ''https://a.com/p2''),
           (''https://c.com/x'', ''https://a.com/p2'')]\<rparr>)"
  "get_links site ''https://a.com/p3'' ''https://a.com'' s =
     (Inr {}, s\<lparr>requests := requests s @ [''https://a.com/p3''],
            messages := messages s @ [Error ''https://a.com/p3'']\<rparr>)"
  "get_links site ''https://a.com/feed'' b s =
     (Inr {}, s\<lparr>requests := requests s @ [''https://a.com/feed''],
            messages := messages s @ [Warning ''https://a.com/feed'']\<rparr>)"
  "get_links site ''https://a.com/down'' b s =
     (Inr {}, s\<lparr>requests := requests s @ [''https://a.com/down''],
            messages := messages s @ [Error ''https://a.com/down'']\<rparr>)"
      apply (simp add: get_links_def site_http_get status_simps site_content_type
              site_handle_href insert_commute del: str_contains.simps)
     apply (simp add: get_links_def site_http_get status_simps site_content_type
             site_handle_href del: str_contains.simps)
    apply (simp add: get_links_def site_http_get status_simps)
   apply (simp add: get_links_def site_http_get status_simps site_content_type
           del: str_contains.simps)
  apply (simp add: get_links_def site_http_get)
  done

lemma site_s1: "crawl_iteration site ''https://a.com'' ''https://a.com'' (crawl_init ''https://a.com'')
  = \<lparr>visited_urls = {''https://a.com''}, external_links = [(''https://b.com'', ''https://a.com'')],
     urls_to_visit = {''https://a.com/p2'', ''https://a.com/p3''},
      total_urls_discovered = 3, requests = [''https://a.com''], messages = [],
      progress = [(1, 1)], raised = None\<rparr>"
  by (simp add: crawl_iteration_def crawl_init_def site_get_links)

lemma site_s2:
  "crawl_iteration site ''https://a.com'' ''https://a.com/p2''
     (crawl_iteration site ''https://a.com'' ''https://a.com'' (crawl_init ''https://a.com''))
   = \<lparr>visited_urls = {''https://a.com'', ''https://a.com/p2''},
      external_links = [(''https://b.com'', ''https://a.com''),
        (''https://b.com'', ''https://a.com/p2''), (''https://c.com/x'', ''https://a.com/p2'')],
      urls_to_visit = {''https://a.com/p3''},
      total_urls_discovered = 3, requests = [''https://a.com'', ''https://a.com/p2''],
      messages = [], progress = [(1, 1), (2, 3)], raised = None\<rparr>"
  unfolding site_s1 by (simp add: crawl_iteration_def site_get_links insert_commute)

lemma site_s3:
  "crawl_iteration site ''https://a.com'' ''https://a.com/p3''
     (crawl_iteration site ''https://a.com'' ''https://a.com/p2''
       (crawl_iteration site ''https://a.com'' ''https://a.com'' (crawl_init ''https://a.com'')))
   = \<lparr>visited_urls = {''https://a.com'', ''https://a.com/p2'', ''https://a.com/p3''},
      external_links = [(''https://b.com'', ''https://a.com''),
        (''https://b.com'', ''https://a.com/p2''), (''https://c.com/x'', ''https://a.com/p2'')],
      urls_to_visit = {},
      total_urls_discovered = 3,
      requests = [''https://a.com'', ''https://a.com/p2'', ''https://a.com/p3''],
      messages = [Error ''https://a.com/p3''], progress = [(1, 1), (2, 3), (3, 3)],
      raised = None\<rparr>"
  unfolding site_s2 by (simp add: crawl_iteration_def site_get_links insert_commute)

lemma site_run1:
  "crawl_run site ''https://a.com''
     (crawl_iteration site ''https://a.com'' ''https://a.com'' (crawl_init ''https://a.com''))"
  by (rule crawl_run_step [OF crawl_run_init]) (simp_all add: crawl_init_def)

lemma site_run2:
  "crawl_run site ''https://a.com''
     (crawl_iteration site ''https://a.com'' ''https://a.com/p2''
       (crawl_iteration site ''https://a.com'' ''https://a.com'' (crawl_init ''https://a.com'')))"
  by (rule crawl_run_step [OF site_run1]) (simp_all add: site_s1)

lemma pop_first_in: "S \<noteq> {} \<Longrightarrow> pop_first prefs S \<in> S"
proof (cases "filter (\<lambda>x. x \<in> S) prefs")
  case Nil
  assume "S \<noteq> {}"
  with Nil show ?thesis by (simp add: pop_first_def some_in_eq)
next
  case (Cons y ys)
  then have "y \<in> set (filter (\<lambda>x. x \<in> S) prefs)" by simp
  then have "y \<in> S" by simp
  with Cons show ?thesis by (simp add: pop_first_def)
qed

lemma site_crawl_website:
  "crawl_website (pop_first [''https://a.com'', ''https://a.com/p2'', ''https://a.com/p3''])
     site ''https://a.com'' 3
   = Some \<lparr>visited_urls = {''https://a.com'', ''https://a.com/p2'', ''https://a.com/p3''},
      external_links = [(''https://b.com'', ''https://a.com''),
        (''https://b.com'', ''https://a.com/p2''), (''https://c.com/x'', ''https://a.com/p2'')],
      urls_to_visit = {},
      total_urls_discovered = 3,
      requests = [''https://a.com'', ''https://a.com/p2'', ''https://a.com/p3''],
      messages = [Error ''https://a.com/p3''], progress = [(1, 1), (2, 3), (3, 3)],
      raised = None\<rparr>"
proof -
  let ?pop = "pop_first [''https://a.com'', ''https://a.com/p2'', ''https://a.com/p3'']"
  let ?s1 = "crawl_iteration site ''https://a.com'' ''https://a.com'' (crawl_init ''https://a.com'')"
  let ?s2 = "crawl_iteration site ''https://a.com'' ''https://a.com/p2'' ?s1"
  let ?s3 = "crawl_iteration site ''https://a.com'' ''https://a.com/p3'' ?s2"
  have f0: "urls_to_visit (crawl_init ''https://a.com'') = {''https://a.com''}"
    "raised (crawl_init ''https://a.com'') = None"
    by (simp_all add: crawl_init_def)
  have f1: "urls_to_visit ?s1 = {''https://a.com/p2'', ''https://a.com/p3''}"
    "raised ?s1 = None"
    by (simp_all add: site_s1)
  have f2: "urls_to_visit ?s2 = {''https://a.com/p3''}" "raised ?s2 = None"
    by (simp_all add: site_s2)
  have f3: "urls_to_visit ?s3 = {}" by (simp add: site_s3)
  have p0: "?pop {''https://a.com''} = ''https://a.com''" by (simp add: pop_first_def)
  have p1: "?pop {''https://a.com/p2'', ''https://a.com/p3''} = ''https://a.com/p2''"
    by (simp add: pop_first_def)
  have p2: "?pop {''https://a.com/p3''} = ''https://a.com/p3''" by (simp add: pop_first_def)
  have "crawl_loop ?pop site ''https://a.com'' 0 ?s3 = Some ?s3" using f3 by simp
  then have "crawl_loop ?pop site ''https://a.com'' (Suc 0) ?s2 = Some ?s3"
    using f2 p2 by simp
  then have "crawl_loop ?pop site ''https://a.com'' (Suc (Suc 0)) ?s1 = Some ?s3"
    using f1 p1 by simp
  then have "crawl_loop ?pop site ''https://a.com'' (Suc (Suc (Suc 0))) (crawl_init ''https://a.com'')
      = Some ?s3"
    using f0 p0 by simp
  then show ?thesis unfolding crawl_website_def site_s3 by (simp add: numeral_3_eq_3)
qed

lemma faulty_urlparse:
  "urlparse ''https://s.com'' = \<lparr>scheme = ''https'', netloc = ''s.com'', path = [], params = [], query = [], fragment = []\<rparr>"
  "urlparse ''https://s.com/p2'' = \<lparr>scheme = ''https'', netloc = ''s.com'', path = ''/p2'', params = [], query = [], fragment = []\<rparr>"
  "urlparse ''https://s.com/p3'' = \<lparr>scheme = ''https'', netloc = ''s.com'', path = ''/p3'', params = [], query = [], fragment = []\<rparr>"
  "urlparse ''https://s.com/p4'' = \<lparr>scheme = ''https'', netloc = ''s.com'', path = ''/p4'', params = [], query = [], fragment = []\<rparr>"
  "urlparse ''https://s.com/p5'' = \<lparr>scheme = ''https'', netloc = ''s.com'', path = ''/p5'', params = [], query = [], fragment = []\<rparr>"
  "urlparse ''https://e.com'' = \<lparr>scheme = ''https'', netloc = ''e.com'', path = [], params = [], query = [], fragment = []\<rparr>"
  "urlparse ''https://d.com'' = \<lparr>scheme = ''https'', netloc = ''d.com'', path = [], params = [], query = [], fragment = []\<rparr>"
  by (simp_all add: url_defs)

lemma faulty_skip:
  "should_skip_url ''https://s.com/p2'' = False"
  "should_skip_url ''https://s.com/p3'' = False"
  "should_skip_url ''https://s.com/p4'' = False"
  "should_skip_url ''https://s.com/p5'' = False"
  "should_skip_url ''https://e.com'' = False"
  "should_skip_url ''https://d.com'' = False"
  by (simp_all add: should_skip_url_def faulty_urlparse lower_simps SKIP_EXTENSIONS_def
      endswith_def)

lemma faulty_valid:
  "is_valid_landing_page ''https://s.com/p2'' = True"
  "is_valid_landing_page ''https://s.com/p3'' = True"
  "is_valid_landing_page ''https://s.com/p4'' = True"
  "is_valid_landing_page ''https://s.com/p5'' = True"
  "is_valid_landing_page ''https://e.com'' = True"
  "is_valid_landing_page ''https://d.com'' = True"
  by (simp_all add: is_valid_landing_page_def startswith_def)

lemma faulty_classify:
  "classify_spec ''https://s.com/p2'' ''s.com'' = Internal"
  "classify_spec ''https://s.com/p3'' ''s.com'' = Internal"
  "classify_spec ''https://s.com/p4'' ''s.com'' = Internal"
  "classify_spec ''https://s.com/p5'' ''s.com'' = Internal"
  "classify_spec ''https://e.com'' ''s.com'' = External"
  "classify_spec ''https://d.com'' ''s.com'' = External"
  by (simp_all add: classify_spec_def faulty_skip faulty_valid faulty_urlparse startswith_def)

lemma faulty_urljoin:
  "urljoin faulty_site u ''https://s.com/p2'' = Some ''https://s.com/p2''"
  "urljoin faulty_site u ''https://s.com/p3'' = Some ''https://s.com/p3''"
  "urljoin faulty_site u ''https://s.com/p4'' = Some ''https://s.com/p4''"
  "urljoin faulty_site u ''https://s.com/p5'' = Some ''https://s.com/p5''"
  "urljoin faulty_site u ''https://e.com'' = Some ''https://e.com''"
  "urljoin faulty_site u ''https://d.com'' = Some ''https://d.com''"
  "urljoin faulty_site u ''http://[::1'' = None"
  by (simp_all add: faulty_site_def)

lemma faulty_http_get:
  "http_get faulty_site ''https://s.com'' =
     Response 200 (Some ''text/html'') [''https://s.com/p2'', ''https://s.com/p3'']"
  "http_get faulty_site ''https://s.com/p2'' = Response 200 (Some ''text/html'')
     [''https://s.com/p4'', ''https://e.com'', ''http://[::1'', ''https://d.com'']"
  "http_get faulty_site ''https://s.com/p3'' =
     Response 300 (Some ''text/html'') [''https://s.com/p5'']"
  "http_get faulty_site ''https://s.com/p5'' = RequestException"
  by (simp_all add: faulty_site_def faulty_get_def)

lemma faulty_handle_href:
  "handle_href faulty_site u ''https://s.com'' (I, X) ''https://s.com/p2'' = Inr (insert ''https://s.com/p2'' I, X)"
  "handle_href faulty_site u ''https://s.com'' (I, X) ''https://s.com/p3'' = Inr (insert ''https://s.com/p3'' I, X)"
  "handle_href faulty_site u ''https://s.com'' (I, X) ''https://s.com/p4'' = Inr (insert ''https://s.com/p4'' I, X)"
  "handle_href faulty_site u ''https://s.com'' (I, X) ''https://s.com/p5'' = Inr (insert ''https://s.com/p5'' I, X)"
  "handle_href faulty_site u ''https://s.com'' (I, X) ''https://e.com'' = Inr (I, X @ [(''https://e.com'', u)])"
  "handle_href faulty_site u ''https://s.com'' (I, X) ''https://d.com'' = Inr (I, X @ [(''https://d.com'', u)])"
  "handle_href faulty_site u ''https://s.com'' (I, X) ''http://[::1'' = Inl ValueError"
  by (simp_all add: handle_href_dispatch handle_href_raises faulty_urljoin dispatch_spec_def
      faulty_classify faulty_urlparse)

lemma faulty_get_links:
  "get_links faulty_site ''https://s.com'' ''https://s.com'' s =
     (Inr {''https://s.com/p2'', ''https://s.com/p3''},
      s\<lparr>requests := requests s @ [''https://s.com'']\<rparr>)"
  "get_links faulty_site ''https://s.com/p2'' ''https://s.com'' s =
     (Inl ValueError,
      s\<lparr>requests := requests s @ [''https://s.com/p2''],
        external_links := external_links s @ [(''https://e.com'', ''https://s.com/p2'')]\<rparr>)"
  "get_links faulty_site ''https://s.com/p3'' ''https://s.com'' s =
     (Inr {''https://s.com/p5''}, s\<lparr>requests := requests s @ [''https://s.com/p3'']\<rparr>)"
  "get_links faulty_site ''https://s.com/p5'' ''https://s.com'' s =
     (Inr {}, s\<lparr>requests := requests s @ [''https://s.com/p5''],
            messages := messages s @ [Error ''https://s.com/p5'']\<rparr>)"
     apply (simp add: get_links_def faulty_http_get status_simps site_content_type
             faulty_handle_href insert_commute del: str_contains.simps)
    apply (simp add: get_links_def faulty_http_get status_simps site_content_type
            faulty_handle_href del: str_contains.simps)
   apply (simp add: get_links_def faulty_http_get status_simps site_content_type
           faulty_handle_href del: str_contains.simps)
  apply (simp add: get_links_def faulty_http_get)
  done

lemma faulty_s1:
  "crawl_iteration faulty_site ''https://s.com'' ''https://s.com'' (crawl_init ''https://s.com'')
   = \<lparr>visited_urls = {''https://s.com''}, external_links = [],
      urls_to_visit = {''https://s.com/p2'', ''https://s.com/p3''},
      total_urls_discovered = 3, requests = [''https://s.com''], messages = [],
      progress = [(1, 1)], raised = None\<rparr>"
  by (simp add: crawl_iteration_def crawl_init_def faulty_get_links)

lemma faulty_s2:
  "crawl_iteration faulty_site ''https://s.com'' ''https://s.com/p2''
     (crawl_iteration faulty_site ''https://s.com'' ''https://s.com'' (crawl_init ''https://s.com''))
   = \<lparr>visited_urls = {''https://s.com'', ''https://s.com/p2''},
      external_links = [(''https://e.com'', ''https://s.com/p2'')],
      urls_to_visit = {''https://s.com/p3''},
      total_urls_discovered = 3, requests = [''https://s.com'', ''https://s.com/p2''],
      messages = [], progress = [(1, 1), (2, 3)], raised = Some ValueError\<rparr>"
  unfolding faulty_s1 by (simp add: crawl_iteration_def faulty_get_links insert_commute)

lemma faulty_s2':
  "crawl_iteration faulty_site ''https://s.com'' ''https://s.com/p3''
     (crawl_iteration faulty_site ''https://s.com'' ''https://s.com'' (crawl_init ''https://s.com''))
   = \<lparr>visited_urls = {''https://s.com'', ''https://s.com/p3''},
      external_links = [],
      urls_to_visit = {''https://s.com/p2'', ''https://s.com/p5''},
      total_urls_discovered = 4, requests = [''https://s.com'', ''https://s.com/p3''],
      messages = [], progress = [(1, 1), (2, 3)], raised = None\<rparr>"
  unfolding faulty_s1
  by (simp add: crawl_iteration_def faulty_get_links insert_commute insert_Diff_if)

lemma faulty_run1:
  "crawl_run faulty_site ''https://s.com''
     (crawl_iteration faulty_site ''https://s.com'' ''https://s.com'' (crawl_init ''https://s.com''))"
  by (rule crawl_run_step [OF crawl_run_init]) (simp_all add: crawl_init_def)

lemma faulty_run2:
  "crawl_run faulty_site ''https://s.com''
     (crawl_iteration faulty_site ''https://s.com'' ''https://s.com/p2''
       (crawl_iteration faulty_site ''https://s.com'' ''https://s.com''
         (crawl_init ''https://s.com'')))"
  by (rule crawl_run_step [OF faulty_run1]) (simp_all add: faulty_s1)

lemma faulty_crawl_website:
  "crawl_website (pop_first [''https://s.com'', ''https://s.com/p2'', ''https://s.com/p3''])
     faulty_site ''https://s.com'' 4
   = Some \<lparr>visited_urls = {''https://s.com'', ''https://s.com/p2''},
      external_links = [(''https://e.com'', ''https://s.com/p2'')],
      urls_to_visit = {''https://s.com/p3''},
      total_urls_discovered = 3, requests = [''https://s.com'', ''https://s.com/p2''],
      messages = [], progress = [(1, 1), (2, 3)], raised = Some ValueError\<rparr>"
proof -
  let ?pop = "pop_first [''https://s.com'', ''https://s.com/p2'', ''https://s.com/p3'']"
  let ?s1 = "crawl_iteration faulty_site ''https://s.com'' ''https://s.com''
      (crawl_init ''https://s.com'')"
  let ?s2 = "crawl_iteration faulty_site ''https://s.com'' ''https://s.com/p2'' ?s1"
  have f0: "urls_to_visit (crawl_init ''https://s.com'') = {''https://s.com''}"
    "raised (crawl_init ''https://s.com'') = None"
    by (simp_all add: crawl_init_def)
  have f1: "urls_to_visit ?s1 = {''https://s.com/p2'', ''https://s.com/p3''}"
    "raised ?s1 = None"
    by (simp_all add: faulty_s1)
  have f2: "raised ?s2 = Some ValueError" by (simp add: faulty_s2)
  have p0: "?pop {''https://s.com''} = ''https://s.com''" by (simp add: pop_first_def)
  have p1: "?pop {''https://s.com/p2'', ''https://s.com/p3''} = ''https://s.com/p2''"
    by (simp add: pop_first_def)
  have "crawl_loop ?pop faulty_site ''https://s.com'' (Suc (Suc 0)) ?s2 = Some ?s2"
    using f2 by simp
  then have "crawl_loop ?pop faulty_site ''https://s.com'' (Suc (Suc (Suc 0))) ?s1 = Some ?s2"
    using f1 p1 by simp
  then have l: "crawl_loop ?pop faulty_site ''https://s.com'' (Suc (Suc (Suc (Suc 0))))
      (crawl_init ''https://s.com'') = Some ?s2"
    using f0 p0 by simp
  have e4: "(4::nat) = Suc (Suc (Suc (Suc 0)))" by simp
  have "crawl_website ?pop faulty_site ''https://s.com'' 4 = Some ?s2"
    unfolding crawl_website_def e4 by (rule l)
  then show ?thesis by (simp only: faulty_s2)
qed

section \<open>The link extractor dispatches as specified, up to the first href that cannot be resolved\<close>

text \<open>
  C6, as the code has it. An href whose resolution against the URL of the page
  returns is dispatched as the specification says: dropped when
  \<open>should_skip_url\<close> holds or \<open>is_valid_landing_page\<close> fails; otherwise added to
  the set of internal links when its network location is that of the base URL;
  otherwise, when the string starts with \<^verbatim>\<open>http\<close>, appended with the page URL to
  \<open>external_links\<close>; otherwise dropped. An href whose resolution raises
  \<^verbatim>\<open>ValueError\<close> ends the loop and \<^verbatim>\<open>get_links\<close> with that exception. So for a
  page served as HTML, \<open>external_links\<close> grows by one pair for each href
  classified external among those before the first href that cannot be
  resolved, in document order and with repetitions; when every href can be
  resolved, these are all the hrefs of the page and the set returned is the set
  of resolved URLs classified internal; when one cannot, \<^verbatim>\<open>get_links\<close> raises,
  no set is returned and the hrefs after it are never looked at.
\<close>

theorem href_dispatch:
  "(\<forall>full_url. urljoin e url href = Some full_url \<longrightarrow>
      handle_href e url base_url acc href =
        Inr (dispatch_spec full_url url (netloc (urlparse base_url)) acc))
   \<and> (urljoin e url href = None \<longrightarrow>
        handle_href e url base_url acc href = Inl ValueError)
   \<and> (http_get e url = Response status header hs
        \<and> \<not> (400 \<le> status \<and> status < 600)
        \<and> str_contains ''text/html'' (case header of None \<Rightarrow> [] | Some v \<Rightarrow> v)
      \<longrightarrow> external_links (snd (get_links e url base_url s)) =
            external_links s @ map (\<lambda>f. (f, url))
              (filter (\<lambda>f. classify_spec f (netloc (urlparse base_url)) = External)
                 (resolved_prefix e url hs))
        \<and> (list_all (\<lambda>h. urljoin e url h \<noteq> None) hs \<longrightarrow>
             resolved_prefix e url hs = map (\<lambda>h. the (urljoin e url h)) hs
             \<and> fst (get_links e url base_url s) =
                 Inr {f \<in> set (resolved_prefix e url hs).
                        classify_spec f (netloc (urlparse base_url)) = Internal})
        \<and> (\<not> list_all (\<lambda>h. urljoin e url h \<noteq> None) hs \<longrightarrow>
             fst (get_links e url base_url s) = Inl ValueError))"
proof -
  have a: "\<forall>full_url. urljoin e url href = Some full_url \<longrightarrow>
      handle_href e url base_url acc href =
        Inr (dispatch_spec full_url url (netloc (urlparse base_url)) acc)"
    by (simp add: handle_href_dispatch)
  have b: "urljoin e url href = None \<longrightarrow>
        handle_href e url base_url acc href = Inl ValueError"
    by (simp add: handle_href_raises)
  have r: "resolved_prefix e url hs = map (\<lambda>h. the (urljoin e url h)) hs"
    if "list_all (\<lambda>h. urljoin e url h \<noteq> None) hs"
    using that by (induction hs) auto
  have c: "external_links (snd (get_links e url base_url s)) =
            external_links s @ map (\<lambda>f. (f, url))
              (filter (\<lambda>f. classify_spec f (netloc (urlparse base_url)) = External)
                 (resolved_prefix e url hs))
        \<and> (list_all (\<lambda>h. urljoin e url h \<noteq> None) hs \<longrightarrow>
             resolved_prefix e url hs = map (\<lambda>h. the (urljoin e url h)) hs
             \<and> fst (get_links e url base_url s) =
                 Inr {f \<in> set (resolved_prefix e url hs).
                        classify_spec f (netloc (urlparse base_url)) = Internal})
        \<and> (\<not> list_all (\<lambda>h. urljoin e url h \<noteq> None) hs \<longrightarrow>
             fst (get_links e url base_url s) = Inl ValueError)"
    if h: "http_get e url = Response status header hs"
      and st: "\<not> (400 \<le> status \<and> status < 600)"
      and ct: "str_contains ''text/html'' (case header of None \<Rightarrow> [] | Some v \<Rightarrow> v)"
  proof -
    from st have nr: "\<not> raise_for_status status" by (simp add: raise_for_status_def)
    show ?thesis
      using r by (simp add: get_links_html [OF h nr ct] handle_hrefs_eq)
  qed
  from a b c show ?thesis by blast
qed

theorem href_dispatch_witness:
  "handle_href site ''https://a.com'' ''https://a.com'' ({}, []) ''mailto:me@a.com'' = Inr ({}, [])
   \<and> handle_href site ''https://a.com'' ''https://a.com'' ({}, []) ''https://a.com/doc.pdf''
      = Inr ({}, [])
   \<and> handle_href site ''https://a.com'' ''https://a.com'' ({''https://a.com/p2''}, [])
        ''https://a.com/p2'' = Inr ({''https://a.com/p2''}, [])
   \<and> handle_href site ''https://a.com/p2'' ''https://a.com''
        ({}, [(''https://b.com'', ''https://a.com'')]) ''https://b.com''
      = Inr ({}, [(''https://b.com'', ''https://a.com''), (''https://b.com'', ''https://a.com/p2'')])
   \<and> classify_spec ''mailto:me@a.com'' ''a.com'' = Rejected
   \<and> classify_spec ''https://a.com/doc.pdf'' ''a.com'' = Rejected
   \<and> classify_spec ''https://a.com/p2#top'' ''a.com'' = Rejected
   \<and> classify_spec ''https://a.com/p2'' ''a.com'' = Internal
   \<and> classify_spec ''https://b.com'' ''a.com'' = External
   \<and> fst (get_links site ''https://a.com'' ''https://a.com'' (crawl_init ''https://a.com''))
      = Inr {''https://a.com/p2'', ''https://a.com/p3''}
   \<and> external_links (snd (get_links site ''https://a.com'' ''https://a.com''
        (crawl_init ''https://a.com''))) = [(''https://b.com'', ''https://a.com'')]
   \<and> handle_href faulty_site ''https://s.com/p2'' ''https://s.com'' ({}, []) ''http://[::1''
      = Inl ValueError
   \<and> resolved_prefix faulty_site ''https://s.com/p2''
        [''https://s.com/p4'', ''https://e.com'', ''http://[::1'', ''https://d.com'']
      = [''https://s.com/p4'', ''https://e.com'']
   \<and> fst (get_links faulty_site ''https://s.com/p2'' ''https://s.com''
        (crawl_init ''https://s.com'')) = Inl ValueError
   \<and> external_links (snd (get_links faulty_site ''https://s.com/p2'' ''https://s.com''
        (crawl_init ''https://s.com''))) = [(''https://e.com'', ''https://s.com/p2'')]"
proof -
  have c: "classify_spec ''mailto:me@a.com'' ''a.com'' = Rejected"
    "classify_spec ''https://a.com/doc.pdf'' ''a.com'' = Rejected"
    "classify_spec ''https://a.com/p2#top'' ''a.com'' = Rejected"
    "classify_spec ''https://a.com/p2'' ''a.com'' = Internal"
    "classify_spec ''https://a.com/p3'' ''a.com'' = Internal"
    "classify_spec ''https://b.com'' ''a.com'' = External"
    by (simp_all add: classify_spec_def site_skip site_valid site_urlparse startswith_def)
  have j: "urljoin site = (\<lambda>base href. Some href)" by (simp add: site_def)
  have n: "netloc (urlparse ''https://a.com'') = ''a.com''" by (simp add: site_urlparse)
  have d1: "handle_href site ''https://a.com'' ''https://a.com'' ({}, []) ''mailto:me@a.com''
      = Inr ({}, [])"
    using href_dispatch [of site "''https://a.com''" "''mailto:me@a.com''" "''https://a.com''"
        "({}, [])"]
    by (simp add: j n c dispatch_spec_def)
  have d2: "handle_href site ''https://a.com'' ''https://a.com'' ({}, []) ''https://a.com/doc.pdf''
      = Inr ({}, [])"
    using href_dispatch [of site "''https://a.com''" "''https://a.com/doc.pdf''"
        "''https://a.com''" "({}, [])"]
    by (simp add: j n c dispatch_spec_def)
  have d3: "handle_href site ''https://a.com'' ''https://a.com'' ({''https://a.com/p2''}, [])
        ''https://a.com/p2'' = Inr ({''https://a.com/p2''}, [])"
    using href_dispatch [of site "''https://a.com''" "''https://a.com/p2''" "''https://a.com''"
        "({''https://a.com/p2''}, [])"]
    by (simp add: j n c dispatch_spec_def)
  have d4: "handle_href site ''https://a.com/p2'' ''https://a.com''
        ({}, [(''https://b.com'', ''https://a.com'')]) ''https://b.com''
      = Inr ({}, [(''https://b.com'', ''https://a.com''), (''https://b.com'', ''https://a.com/p2'')])"
    using href_dispatch [of site "''https://a.com/p2''" "''https://b.com''" "''https://a.com''"
        "({}, [(''https://b.com'', ''https://a.com'')])"]
    by (simp add: j n c dispatch_spec_def)
  have g: "fst (get_links site ''https://a.com'' ''https://a.com'' (crawl_init ''https://a.com''))
      = Inr {''https://a.com/p2'', ''https://a.com/p3''}
   \<and> external_links (snd (get_links site ''https://a.com'' ''https://a.com''
        (crawl_init ''https://a.com''))) = [(''https://b.com'', ''https://a.com'')]"
    by (simp add: site_get_links crawl_init_def)
  have pre: "resolved_prefix faulty_site ''https://s.com/p2''
        [''https://s.com/p4'', ''https://e.com'', ''http://[::1'', ''https://d.com'']
      = [''https://s.com/p4'', ''https://e.com'']"
    by (simp add: faulty_urljoin)
  have nall: "\<not> list_all (\<lambda>h. urljoin faulty_site ''https://s.com/p2'' h \<noteq> None)
        [''https://s.com/p4'', ''https://e.com'', ''http://[::1'', ''https://d.com'']"
    by (simp add: faulty_urljoin)
  have h2: "http_get faulty_site ''https://s.com/p2'' = Response 200 (Some ''text/html'')
     [''https://s.com/p4'', ''https://e.com'', ''http://[::1'', ''https://d.com'']"
    by (rule faulty_http_get)
  have st: "\<not> (400 \<le> (200::nat) \<and> (200::nat) < 600)" by simp
  have ct: "str_contains ''text/html'' (case Some ''text/html'' of None \<Rightarrow> [] | Some v \<Rightarrow> v)"
    by (simp add: site_content_type del: str_contains.simps)
  have n2: "netloc (urlparse ''https://s.com'') = ''s.com''" by (simp add: faulty_urlparse)
  note t = href_dispatch [of faulty_site "''https://s.com/p2''" "''http://[::1''"
      "''https://s.com''" "({}, [])" 200 "Some ''text/html''"
      "[''https://s.com/p4'', ''https://e.com'', ''http://[::1'', ''https://d.com'']"
      "crawl_init ''https://s.com''"]
  from t have d5: "handle_href faulty_site ''https://s.com/p2'' ''https://s.com'' ({}, [])
      ''http://[::1'' = Inl ValueError"
    by (simp add: faulty_urljoin)
  from t h2 st ct nall
  have g2: "fst (get_links faulty_site ''https://s.com/p2'' ''https://s.com''
        (crawl_init ''https://s.com'')) = Inl ValueError"
    by blast
  from t h2 st ct
  have "external_links (snd (get_links faulty_site ''https://s.com/p2'' ''https://s.com''
        (crawl_init ''https://s.com''))) =
      external_links (crawl_init ''https://s.com'') @ map (\<lambda>f. (f, ''https://s.com/p2''))
        (filter (\<lambda>f. classify_spec f (netloc (urlparse ''https://s.com'')) = External)
           (resolved_prefix faulty_site ''https://s.com/p2''
              [''https://s.com/p4'', ''https://e.com'', ''http://[::1'', ''https://d.com'']))"
    by blast
  then have x2: "external_links (snd (get_links faulty_site ''https://s.com/p2'' ''https://s.com''
        (crawl_init ''https://s.com''))) = [(''https://e.com'', ''https://s.com/p2'')]"
    unfolding pre n2 by (simp add: faulty_classify) (simp add: crawl_init_def)
  from d1 d2 d3 d4 c g d5 pre g2 x2 show ?thesis by simp
qed

text \<open>
  The dispatch does not reach every href of a page. On the second site a page
  holds, in this order, an internal link, an external link, an href that
  \<^verbatim>\<open>urljoin\<close> rejects and another external link. The last href can be resolved
  and is classified external, and yet its pair is not in \<open>external_links\<close> after
  \<^verbatim>\<open>get_links\<close>; the first is classified internal, and yet it is not handed to
  the caller, since \<^verbatim>\<open>get_links\<close> raises.
\<close>

theorem href_dispatch_counterexample:
  "http_get faulty_site ''https://s.com/p2'' = Response 200 (Some ''text/html'')
     [''https://s.com/p4'', ''https://e.com'', ''http://[::1'', ''https://d.com'']
   \<and> urljoin faulty_site ''https://s.com/p2'' ''https://d.com'' = Some ''https://d.com''
   \<and> classify_spec ''https://d.com'' (netloc (urlparse ''https://s.com'')) = External
   \<and> (''https://d.com'', ''https://s.com/p2'')
       \<notin> set (external_links (snd (get_links faulty_site ''https://s.com/p2'' ''https://s.com''
             (crawl_init ''https://s.com''))))
   \<and> urljoin faulty_site ''https://s.com/p2'' ''https://s.com/p4'' = Some ''https://s.com/p4''
   \<and> classify_spec ''https://s.com/p4'' (netloc (urlparse ''https://s.com'')) = Internal
   \<and> ''https://s.com/p4''
       \<notin> returned_links (fst (get_links faulty_site ''https://s.com/p2'' ''https://s.com''
             (crawl_init ''https://s.com'')))
   \<and> fst (get_links faulty_site ''https://s.com/p2'' ''https://s.com''
        (crawl_init ''https://s.com'')) = Inl ValueError"
  by (simp add: faulty_http_get faulty_urljoin faulty_urlparse faulty_classify faulty_get_links
      returned_links_def crawl_init_def)

section \<open>Properties of the crawl engine\<close>

text \<open>
  C1. In every run, at the head of the loop and therefore after every
  iteration, the frontier \<open>urls_to_visit\<close> and the set \<open>visited_urls\<close> are
  disjoint. The links an iteration adds to the frontier are the links of the
  page with every element of \<open>visited_urls\<close> and every element of the frontier
  removed first.
\<close>

theorem frontier_visited_disjoint:
  assumes "crawl_run e start_url s"
  shows "urls_to_visit s \<inter> visited_urls s = {}
    \<and> (\<forall>u \<in> urls_to_visit s.
          urls_to_visit (crawl_iteration e start_url u s) \<inter>
            visited_urls (crawl_iteration e start_url u s) = {}
        \<and> urls_to_visit (crawl_iteration e start_url u s) =
            (urls_to_visit s - {u}) \<union>
            (returned_links (fst (get_links e u start_url s))
               - visited_urls (crawl_iteration e start_url u s)
               - (urls_to_visit s - {u})))"
proof -
  have d: "urls_to_visit s \<inter> visited_urls s = {}"
    using crawl_run_disjoint [OF assms] by simp
  have "urls_to_visit (crawl_iteration e start_url u s) \<inter>
            visited_urls (crawl_iteration e start_url u s) = {}
        \<and> urls_to_visit (crawl_iteration e start_url u s) =
            (urls_to_visit s - {u}) \<union>
            (returned_links (fst (get_links e u start_url s))
               - visited_urls (crawl_iteration e start_url u s)
               - (urls_to_visit s - {u}))" if u: "u \<in> urls_to_visit s" for u
  proof -
    from assms u have fresh: "u \<notin> visited_urls s" by (rule crawl_run_fresh)
    from assms u have "urls_to_visit (crawl_iteration e start_url u s) \<inter>
            visited_urls (crawl_iteration e start_url u s) = {}"
      by (rule crawl_iteration_disjoint)
    then show ?thesis by (simp add: crawl_iteration_fresh [OF fresh])
  qed
  with d show ?thesis by blast
qed

theorem frontier_visited_disjoint_witness:
  "crawl_run site ''https://a.com''
      (crawl_iteration site ''https://a.com'' ''https://a.com'' (crawl_init ''https://a.com''))
   \<and> urls_to_visit (crawl_iteration site ''https://a.com'' ''https://a.com''
        (crawl_init ''https://a.com'')) = {''https://a.com/p2'', ''https://a.com/p3''}
   \<and> visited_urls (crawl_iteration site ''https://a.com'' ''https://a.com''
        (crawl_init ''https://a.com'')) = {''https://a.com''}
   \<and> urls_to_visit (crawl_iteration site ''https://a.com'' ''https://a.com''
        (crawl_init ''https://a.com'')) \<inter>
      visited_urls (crawl_iteration site ''https://a.com'' ''https://a.com''
        (crawl_init ''https://a.com'')) = {}"
proof -
  have run: "crawl_run site ''https://a.com''
      (crawl_iteration site ''https://a.com'' ''https://a.com'' (crawl_init ''https://a.com''))"
    by (rule site_run1)
  from frontier_visited_disjoint [OF run] run show ?thesis
    by (simp add: site_s1)
qed

text \<open>
  C2. No URL is requested twice in a run: the requests made so far are pairwise
  distinct and are exactly the visited URLs; every iteration of a run makes
  \<open>visited_urls\<close> strictly larger, and the URL it requests was not in
  \<open>visited_urls\<close> before.
\<close>

theorem no_url_fetched_twice:
  assumes "crawl_run e start_url s"
  shows "distinct (requests s) \<and> set (requests s) = visited_urls s
    \<and> (\<forall>s'. crawl_step e start_url s s' \<longrightarrow>
          visited_urls s \<subset> visited_urls s'
          \<and> (\<exists>u. u \<notin> visited_urls s \<and> requests s' = requests s @ [u]))"
proof -
  have "visited_urls s \<subset> visited_urls s'
          \<and> (\<exists>u. u \<notin> visited_urls s \<and> requests s' = requests s @ [u])"
    if "crawl_step e start_url s s'" for s'
  proof -
    from that obtain u where u: "u \<in> urls_to_visit s"
      and s': "s' = crawl_iteration e start_url u s"
      by (auto elim: crawl_step.cases)
    from assms u have fresh: "u \<notin> visited_urls s" by (rule crawl_run_fresh)
    then show ?thesis unfolding s'
      by (auto simp: crawl_iteration_fresh [OF fresh])
  qed
  with crawl_run_requests [OF assms] show ?thesis by blast
qed

theorem no_url_fetched_twice_witness:
  "requests (crawl_iteration site ''https://a.com'' ''https://a.com/p2''
       (crawl_iteration site ''https://a.com'' ''https://a.com'' (crawl_init ''https://a.com'')))
     = [''https://a.com'', ''https://a.com/p2'']
   \<and> distinct (requests (crawl_iteration site ''https://a.com'' ''https://a.com/p2''
       (crawl_iteration site ''https://a.com'' ''https://a.com'' (crawl_init ''https://a.com''))))
   \<and> visited_urls (crawl_iteration site ''https://a.com'' ''https://a.com/p2''
       (crawl_iteration site ''https://a.com'' ''https://a.com'' (crawl_init ''https://a.com'')))
     = {''https://a.com'', ''https://a.com/p2''}
   \<and> visited_urls
       (crawl_iteration site ''https://a.com'' ''https://a.com'' (crawl_init ''https://a.com''))
     \<subset> visited_urls (crawl_iteration site ''https://a.com'' ''https://a.com/p2''
       (crawl_iteration site ''https://a.com'' ''https://a.com'' (crawl_init ''https://a.com'')))"
proof -
  have "raised
      (crawl_iteration site ''https://a.com'' ''https://a.com'' (crawl_init ''https://a.com''))
      = None"
    and "''https://a.com/p2'' \<in> urls_to_visit
      (crawl_iteration site ''https://a.com'' ''https://a.com'' (crawl_init ''https://a.com''))"
    by (simp_all add: site_s1)
  then have st: "crawl_step site ''https://a.com''
      (crawl_iteration site ''https://a.com'' ''https://a.com'' (crawl_init ''https://a.com''))
      (crawl_iteration site ''https://a.com'' ''https://a.com/p2''
        (crawl_iteration site ''https://a.com'' ''https://a.com'' (crawl_init ''https://a.com'')))"
    by (rule crawl_step.pop)
  have r: "requests (crawl_iteration site ''https://a.com'' ''https://a.com/p2''
       (crawl_iteration site ''https://a.com'' ''https://a.com'' (crawl_init ''https://a.com'')))
     = [''https://a.com'', ''https://a.com/p2'']"
    and v: "visited_urls (crawl_iteration site ''https://a.com'' ''https://a.com/p2''
       (crawl_iteration site ''https://a.com'' ''https://a.com'' (crawl_init ''https://a.com'')))
     = {''https://a.com'', ''https://a.com/p2''}"
    by (simp_all add: site_s2)
  from no_url_fetched_twice [OF site_run1] st
  have "visited_urls
       (crawl_iteration site ''https://a.com'' ''https://a.com'' (crawl_init ''https://a.com''))
     \<subset> visited_urls (crawl_iteration site ''https://a.com'' ''https://a.com/p2''
       (crawl_iteration site ''https://a.com'' ''https://a.com'' (crawl_init ''https://a.com'')))"
    by blast
  moreover from no_url_fetched_twice [OF site_run2]
  have "distinct (requests (crawl_iteration site ''https://a.com'' ''https://a.com/p2''
       (crawl_iteration site ''https://a.com'' ''https://a.com'' (crawl_init ''https://a.com''))))"
    by blast
  ultimately show ?thesis using r v by blast
qed

text \<open>
  C3. In every run, the first component of every pair of \<open>external_links\<close> is a
  URL whose network location differs from the network location of the seed
  URL.
\<close>

theorem external_links_are_external:
  assumes "crawl_run e start_url s"
  shows "\<forall>p \<in> set (external_links s).
           netloc (urlparse (fst p)) \<noteq> netloc (urlparse start_url)"
  using crawl_run_external [OF assms] by blast

theorem external_links_are_external_witness:
  "external_links (crawl_iteration site ''https://a.com'' ''https://a.com/p2''
       (crawl_iteration site ''https://a.com'' ''https://a.com'' (crawl_init ''https://a.com'')))
     = [(''https://b.com'', ''https://a.com''), (''https://b.com'', ''https://a.com/p2''),
        (''https://c.com/x'', ''https://a.com/p2'')]
   \<and> netloc (urlparse ''https://a.com'') = ''a.com''
   \<and> netloc (urlparse ''https://b.com'') \<noteq> netloc (urlparse ''https://a.com'')
   \<and> netloc (urlparse ''https://c.com/x'') \<noteq> netloc (urlparse ''https://a.com'')"
proof -
  have x: "external_links (crawl_iteration site ''https://a.com'' ''https://a.com/p2''
       (crawl_iteration site ''https://a.com'' ''https://a.com'' (crawl_init ''https://a.com'')))
     = [(''https://b.com'', ''https://a.com''), (''https://b.com'', ''https://a.com/p2''),
        (''https://c.com/x'', ''https://a.com/p2'')]"
    by (simp add: site_s2)
  have n: "netloc (urlparse ''https://a.com'') = ''a.com''" by (simp add: site_urlparse)
  from external_links_are_external [OF site_run2] x
  have "netloc (urlparse ''https://b.com'') \<noteq> netloc (urlparse ''https://a.com'')
   \<and> netloc (urlparse ''https://c.com/x'') \<noteq> netloc (urlparse ''https://a.com'')"
    by simp
  with x n show ?thesis by blast
qed

text \<open>
  C5. At every progress report of a run, made just after the popped URL is
  added to \<open>visited_urls\<close>, the numerator is the number of visited URLs and the
  denominator \<open>total_urls_discovered\<close> is the number of visited URLs plus the
  size of the frontier, which is the size of their union. The counter starts at
  one, is never zero, and an iteration adds to it the number of links it puts
  into the frontier. The reported ratio can decrease from one report to the
  next.
\<close>

theorem progress_ratio:
  assumes run: "crawl_run e start_url s" and u: "u \<in> urls_to_visit s"
  shows "progress (crawl_iteration e start_url u s) =
           progress s @ [(card (insert u (visited_urls s)),
                          card (insert u (visited_urls s) \<union> (urls_to_visit s - {u})))]
    \<and> total_urls_discovered s =
        card (insert u (visited_urls s)) + card (urls_to_visit s - {u})
    \<and> total_urls_discovered s =
        card (insert u (visited_urls s) \<union> (urls_to_visit s - {u}))
    \<and> 0 < total_urls_discovered s
    \<and> card (insert u (visited_urls s)) \<le> total_urls_discovered s
    \<and> total_urls_discovered (crawl_init start_url) = 1
    \<and> total_urls_discovered (crawl_iteration e start_url u s) =
        total_urls_discovered s
        + card (urls_to_visit (crawl_iteration e start_url u s) - (urls_to_visit s - {u}))
    \<and> (\<exists>e' b' s' n d n' d'. crawl_run e' b' s' \<and> progress s' = [(n, d), (n', d')]
          \<and> n' * d < n * d')"
proof -
  from run u have fresh: "u \<notin> visited_urls s" by (rule crawl_run_fresh)
  from crawl_run_disjoint [OF run]
  have finF: "finite (urls_to_visit s)" and finV: "finite (visited_urls s)"
    and disj: "urls_to_visit s \<inter> visited_urls s = {}" by auto
  have tot: "total_urls_discovered s = card (visited_urls s) + card (urls_to_visit s)"
    using run by (rule crawl_run_total)
  have cF: "card (urls_to_visit s - {u}) = card (urls_to_visit s) - 1"
    using u finF by simp
  have posF: "0 < card (urls_to_visit s)"
    using u finF by (auto simp: card_gt_0_iff)
  have cV: "card (insert u (visited_urls s)) = Suc (card (visited_urls s))"
    using fresh finV by simp
  have t1: "total_urls_discovered s =
        card (insert u (visited_urls s)) + card (urls_to_visit s - {u})"
    using tot cF posF cV by simp
  have "card (insert u (visited_urls s) \<union> (urls_to_visit s - {u}))
        = card (insert u (visited_urls s)) + card (urls_to_visit s - {u})"
    using finF finV disj by (intro card_Un_disjoint) auto
  with t1 have t2: "total_urls_discovered s =
        card (insert u (visited_urls s) \<union> (urls_to_visit s - {u}))" by simp
  have p: "progress (crawl_iteration e start_url u s) =
           progress s @ [(card (insert u (visited_urls s)),
                          card (insert u (visited_urls s) \<union> (urls_to_visit s - {u})))]"
    using t2 by (simp add: crawl_iteration_fresh [OF fresh])
  have pos: "0 < total_urls_discovered s" using tot posF by simp
  have le: "card (insert u (visited_urls s)) \<le> total_urls_discovered s" using t1 by simp
  have i: "total_urls_discovered (crawl_init start_url) = 1"
    by (simp add: crawl_init_def)
  have "urls_to_visit (crawl_iteration e start_url u s) - (urls_to_visit s - {u})
        = returned_links (fst (get_links e u start_url s)) - insert u (visited_urls s) - (urls_to_visit s - {u})"
    by (auto simp: crawl_iteration_fresh [OF fresh])
  then have inc: "total_urls_discovered (crawl_iteration e start_url u s) =
        total_urls_discovered s
        + card (urls_to_visit (crawl_iteration e start_url u s) - (urls_to_visit s - {u}))"
    by (simp add: crawl_iteration_fresh [OF fresh])
  have "progress (crawl_iteration site ''https://a.com'' ''https://a.com/p2''
          (crawl_iteration site ''https://a.com'' ''https://a.com'' (crawl_init ''https://a.com'')))
        = [(1, 1), (2, 3)] \<and> (2::nat) * 1 < 1 * 3"
    by (simp add: site_s2)
  with site_run2
  have ex: "\<exists>e' b' s' n d n' d'. crawl_run e' b' s' \<and> progress s' = [(n, d), (n', d')]
          \<and> n' * d < n * d'" by blast
  from p t1 t2 pos le i inc ex show ?thesis by blast
qed

theorem progress_ratio_witness:
  "crawl_run site ''https://a.com''
     (crawl_iteration site ''https://a.com'' ''https://a.com'' (crawl_init ''https://a.com''))
   \<and> progress (crawl_iteration site ''https://a.com'' ''https://a.com/p2''
       (crawl_iteration site ''https://a.com'' ''https://a.com'' (crawl_init ''https://a.com'')))
     = [(1, 1), (2, 3)]
   \<and> total_urls_discovered
       (crawl_iteration site ''https://a.com'' ''https://a.com'' (crawl_init ''https://a.com'')) = 3"
proof -
  have u: "''https://a.com/p2'' \<in> urls_to_visit
      (crawl_iteration site ''https://a.com'' ''https://a.com'' (crawl_init ''https://a.com''))"
    by (simp add: site_s1)
  have "card (insert ''https://a.com/p2'' {''https://a.com''}) = 2" by simp
  moreover have "card (insert ''https://a.com/p2'' {''https://a.com''}
      \<union> ({''https://a.com/p2'', ''https://a.com/p3''} - {''https://a.com/p2''})) = 3"
    by (simp add: insert_Diff_if)
  ultimately show ?thesis
    using progress_ratio [OF site_run1 u] site_run1 by (simp add: site_s1)
qed

text \<open>
  C10. In every run, every URL of the frontier other than the seed passes both
  filters: it is not skipped and it is a valid landing page. The seed itself is
  put into the frontier without any test, and the first iteration requests it
  and marks it visited whatever it looks like.
\<close>

theorem frontier_filtered_except_seed:
  assumes "crawl_run e start_url s"
  shows "(\<forall>u \<in> urls_to_visit s.
            u = start_url \<or> (\<not> should_skip_url u \<and> is_valid_landing_page u))
    \<and> urls_to_visit (crawl_init start_url) = {start_url}
    \<and> (\<exists>s1. crawl_step e start_url (crawl_init start_url) s1)
    \<and> (\<forall>s1. crawl_step e start_url (crawl_init start_url) s1 \<longrightarrow>
          requests s1 = [start_url] \<and> visited_urls s1 = {start_url})"
proof -
  have "raised (crawl_init start_url) = None"
    and "start_url \<in> urls_to_visit (crawl_init start_url)"
    by (simp_all add: crawl_init_def)
  then have "crawl_step e start_url (crawl_init start_url)
      (crawl_iteration e start_url start_url (crawl_init start_url))"
    by (rule crawl_step.pop)
  then have "\<exists>s1. crawl_step e start_url (crawl_init start_url) s1" ..
  moreover have "urls_to_visit (crawl_init start_url) = {start_url}"
    by (simp add: crawl_init_def)
  ultimately show ?thesis
    using crawl_run_frontier_filtered [OF assms] first_iteration by blast
qed

theorem frontier_filtered_except_seed_witness:
  "should_skip_url ''https://a.com/et_blog/x.pdf#top'' = True
   \<and> is_valid_landing_page ''https://a.com/et_blog/x.pdf#top'' = False
   \<and> crawl_step site ''https://a.com/et_blog/x.pdf#top''
       (crawl_init ''https://a.com/et_blog/x.pdf#top'')
       (crawl_iteration site ''https://a.com/et_blog/x.pdf#top''
          ''https://a.com/et_blog/x.pdf#top'' (crawl_init ''https://a.com/et_blog/x.pdf#top''))
   \<and> requests (crawl_iteration site ''https://a.com/et_blog/x.pdf#top''
          ''https://a.com/et_blog/x.pdf#top'' (crawl_init ''https://a.com/et_blog/x.pdf#top''))
      = [''https://a.com/et_blog/x.pdf#top'']
   \<and> visited_urls (crawl_iteration site ''https://a.com/et_blog/x.pdf#top''
          ''https://a.com/et_blog/x.pdf#top'' (crawl_init ''https://a.com/et_blog/x.pdf#top''))
      = {''https://a.com/et_blog/x.pdf#top''}
   \<and> \<not> should_skip_url ''https://a.com/p2'' \<and> is_valid_landing_page ''https://a.com/p2''
   \<and> \<not> should_skip_url ''https://a.com/p3'' \<and> is_valid_landing_page ''https://a.com/p3''"
proof -
  have k: "should_skip_url ''https://a.com/et_blog/x.pdf#top'' = True"
    by (simp add: should_skip_url_def url_defs SKIP_EXTENSIONS_def endswith_def)
  have v: "is_valid_landing_page ''https://a.com/et_blog/x.pdf#top'' = False"
    by (simp add: is_valid_landing_page_def startswith_def)
  have st: "crawl_step site ''https://a.com/et_blog/x.pdf#top''
       (crawl_init ''https://a.com/et_blog/x.pdf#top'')
       (crawl_iteration site ''https://a.com/et_blog/x.pdf#top''
          ''https://a.com/et_blog/x.pdf#top'' (crawl_init ''https://a.com/et_blog/x.pdf#top''))"
    by (rule crawl_step.pop) (simp_all add: crawl_init_def)
  have "''https://a.com/p2'' \<noteq> ''https://a.com''" "''https://a.com/p3'' \<noteq> ''https://a.com''"
    by simp_all
  with frontier_filtered_except_seed
      [OF crawl_run_init [of site "''https://a.com/et_blog/x.pdf#top''"]]
    frontier_filtered_except_seed [OF site_run1] st k v
  show ?thesis by (simp add: site_s1)
qed

text \<open>
  C9, as the code has it. The fetch failures that \<^verbatim>\<open>get_links\<close> catches stay
  inside their iteration. When \<^verbatim>\<open>requests.get\<close> raises a
  \<^verbatim>\<open>RequestException\<close>, or the status of the response is between 400 and 599
  (\<^verbatim>\<open>raise_for_status\<close> raises), or the status is any other one and the content
  type is not HTML, the URL yields no links, it is in \<open>visited_urls\<close>
  afterwards, the frontier only loses the popped URL, \<open>external_links\<close> is
  unchanged, one message is shown (an error in the first two cases, a warning
  in the third), and the run goes on: every URL left in the frontier can be
  popped next. An exception of \<^verbatim>\<open>requests.get\<close> that is not a
  \<^verbatim>\<open>RequestException\<close> is not caught: the URL is visited, no message is shown,
  and the run ends there.
\<close>

theorem fetch_failure_contained:
  assumes run: "crawl_run e start_url s" and going: "raised s = None"
    and u: "u \<in> urls_to_visit s"
  shows "((http_get e u = RequestException
            \<or> (\<exists>status header hs. http_get e u = Response status header hs
                  \<and> 400 \<le> status \<and> status < 600)) \<and> m = Error u
          \<or> (\<exists>status header hs. http_get e u = Response status header hs
                \<and> \<not> (400 \<le> status \<and> status < 600)
                \<and> \<not> str_contains ''text/html'' (case header of None \<Rightarrow> [] | Some v \<Rightarrow> v))
             \<and> m = Warning u
        \<longrightarrow> fst (get_links e u start_url s) = Inr {}
          \<and> visited_urls (crawl_iteration e start_url u s) = insert u (visited_urls s)
          \<and> urls_to_visit (crawl_iteration e start_url u s) = urls_to_visit s - {u}
          \<and> external_links (crawl_iteration e start_url u s) = external_links s
          \<and> messages (crawl_iteration e start_url u s) = messages s @ [m]
          \<and> raised (crawl_iteration e start_url u s) = None
          \<and> crawl_run e start_url (crawl_iteration e start_url u s)
          \<and> (\<forall>v \<in> urls_to_visit s - {u}.
                crawl_step e start_url (crawl_iteration e start_url u s)
                  (crawl_iteration e start_url v (crawl_iteration e start_url u s))))
    \<and> (http_get e u = OtherException
        \<longrightarrow> fst (get_links e u start_url s) = Inl OtherError
          \<and> visited_urls (crawl_iteration e start_url u s) = insert u (visited_urls s)
          \<and> urls_to_visit (crawl_iteration e start_url u s) = urls_to_visit s - {u}
          \<and> messages (crawl_iteration e start_url u s) = messages s
          \<and> raised (crawl_iteration e start_url u s) = Some OtherError
          \<and> (\<nexists>s'. crawl_step e start_url (crawl_iteration e start_url u s) s'))"
proof -
  from run u have fresh: "u \<notin> visited_urls s" by (rule crawl_run_fresh)
  have r: "crawl_run e start_url (crawl_iteration e start_url u s)"
    using run going u by (rule crawl_run_step)
  have caught: "fst (get_links e u start_url s) = Inr {}
          \<and> visited_urls (crawl_iteration e start_url u s) = insert u (visited_urls s)
          \<and> urls_to_visit (crawl_iteration e start_url u s) = urls_to_visit s - {u}
          \<and> external_links (crawl_iteration e start_url u s) = external_links s
          \<and> messages (crawl_iteration e start_url u s) = messages s @ [m]
          \<and> raised (crawl_iteration e start_url u s) = None
          \<and> crawl_run e start_url (crawl_iteration e start_url u s)
          \<and> (\<forall>v \<in> urls_to_visit s - {u}.
                crawl_step e start_url (crawl_iteration e start_url u s)
                  (crawl_iteration e start_url v (crawl_iteration e start_url u s)))"
    if fail: "(http_get e u = RequestException
            \<or> (\<exists>status header hs. http_get e u = Response status header hs
                  \<and> 400 \<le> status \<and> status < 600)) \<and> m = Error u
          \<or> (\<exists>status header hs. http_get e u = Response status header hs
                \<and> \<not> (400 \<le> status \<and> status < 600)
                \<and> \<not> str_contains ''text/html'' (case header of None \<Rightarrow> [] | Some v \<Rightarrow> v))
             \<and> m = Warning u"
  proof -
    have gl: "get_links e u start_url t =
               (Inr {}, t\<lparr>requests := requests t @ [u], messages := messages t @ [m]\<rparr>)" for t
      using fail get_links_request_exception [of e u start_url t]
        get_links_http_error [of e u _ _ _ start_url t]
        get_links_not_html [of e u _ _ _ start_url t]
      unfolding raise_for_status_def by blast
    note it = crawl_iteration_no_links [OF fresh gl]
    have a: "fst (get_links e u start_url s) = Inr {}" by (simp add: gl)
    have n: "raised (crawl_iteration e start_url u s) = None" using it going by simp
    have c: "\<forall>v \<in> urls_to_visit s - {u}.
          crawl_step e start_url (crawl_iteration e start_url u s)
            (crawl_iteration e start_url v (crawl_iteration e start_url u s))"
    proof
      fix v assume "v \<in> urls_to_visit s - {u}"
      then have "v \<in> urls_to_visit (crawl_iteration e start_url u s)" using it by simp
      with n show "crawl_step e start_url (crawl_iteration e start_url u s)
            (crawl_iteration e start_url v (crawl_iteration e start_url u s))"
        by (rule crawl_step.pop)
    qed
    from a it n r c show ?thesis by blast
  qed
  have escaped: "fst (get_links e u start_url s) = Inl OtherError
          \<and> visited_urls (crawl_iteration e start_url u s) = insert u (visited_urls s)
          \<and> urls_to_visit (crawl_iteration e start_url u s) = urls_to_visit s - {u}
          \<and> messages (crawl_iteration e start_url u s) = messages s
          \<and> raised (crawl_iteration e start_url u s) = Some OtherError
          \<and> (\<nexists>s'. crawl_step e start_url (crawl_iteration e start_url u s) s')"
    if other: "http_get e u = OtherException"
  proof -
    have a: "fst (get_links e u start_url s) = Inl OtherError"
      by (simp add: get_links_other_exception [OF other])
    then have rs: "raised (crawl_iteration e start_url u s) = Some OtherError"
      by (simp add: crawl_iteration_fresh [OF fresh])
    then have no: "\<nexists>s'. crawl_step e start_url (crawl_iteration e start_url u s) s'"
      by (simp add: crawl_step_iff)
    have ms: "messages (crawl_iteration e start_url u s) = messages s"
      using fresh by (simp add: crawl_iteration_def get_links_other_exception [OF other])
    have "returned_links (fst (get_links e u start_url s)) = {}"
      by (simp add: a returned_links_def)
    then have "urls_to_visit (crawl_iteration e start_url u s) = urls_to_visit s - {u}"
      and "visited_urls (crawl_iteration e start_url u s) = insert u (visited_urls s)"
      by (simp_all add: crawl_iteration_fresh [OF fresh])
    with a rs no ms show ?thesis by blast
  qed
  from caught escaped show ?thesis by blast
qed

theorem fetch_failure_contained_witness:
  "http_get site ''https://a.com/p3'' = Response 404 (Some ''text/html'') [''https://a.com/p4'']
   \<and> visited_urls (crawl_iteration site ''https://a.com'' ''https://a.com/p3''
        (crawl_iteration site ''https://a.com'' ''https://a.com'' (crawl_init ''https://a.com'')))
      = {''https://a.com/p3'', ''https://a.com''}
   \<and> urls_to_visit (crawl_iteration site ''https://a.com'' ''https://a.com/p3''
        (crawl_iteration site ''https://a.com'' ''https://a.com'' (crawl_init ''https://a.com'')))
      = {''https://a.com/p2''}
   \<and> messages (crawl_iteration site ''https://a.com'' ''https://a.com/p3''
        (crawl_iteration site ''https://a.com'' ''https://a.com'' (crawl_init ''https://a.com'')))
      = [Error ''https://a.com/p3'']
   \<and> crawl_step site ''https://a.com''
        (crawl_iteration site ''https://a.com'' ''https://a.com/p3''
          (crawl_iteration site ''https://a.com'' ''https://a.com'' (crawl_init ''https://a.com'')))
        (crawl_iteration site ''https://a.com'' ''https://a.com/p2''
          (crawl_iteration site ''https://a.com'' ''https://a.com/p3''
            (crawl_iteration site ''https://a.com'' ''https://a.com''
              (crawl_init ''https://a.com''))))
   \<and> http_get site ''https://a.com/down'' = RequestException
   \<and> messages (crawl_iteration site ''https://a.com/down'' ''https://a.com/down''
        (crawl_init ''https://a.com/down'')) = [Error ''https://a.com/down'']
   \<and> raised (crawl_iteration site ''https://a.com/down'' ''https://a.com/down''
        (crawl_init ''https://a.com/down'')) = None
   \<and> messages (crawl_iteration site ''https://a.com/feed'' ''https://a.com/feed''
        (crawl_init ''https://a.com/feed'')) = [Warning ''https://a.com/feed'']
   \<and> visited_urls (crawl_iteration site ''https://a.com/feed'' ''https://a.com/feed''
        (crawl_init ''https://a.com/feed'')) = {''https://a.com/feed''}"
proof -
  let ?s1 = "crawl_iteration site ''https://a.com'' ''https://a.com'' (crawl_init ''https://a.com'')"
  have f1: "http_get site ''https://a.com/p3'' =
      Response 404 (Some ''text/html'') [''https://a.com/p4'']"
    by (rule site_http_get)
  have g1: "raised ?s1 = None" by (simp add: site_s1)
  have u1: "''https://a.com/p3'' \<in> urls_to_visit ?s1" by (simp add: site_s1)
  have v1: "''https://a.com/p2'' \<in> urls_to_visit ?s1 - {''https://a.com/p3''}"
    by (simp add: site_s1)
  have fields: "visited_urls ?s1 = {''https://a.com''}"
    "urls_to_visit ?s1 - {''https://a.com/p3''} = {''https://a.com/p2''}"
    "messages ?s1 = []"
    by (simp_all add: site_s1 insert_Diff_if)
  have a: "(http_get site ''https://a.com/p3'' = RequestException
            \<or> (\<exists>status header hs. http_get site ''https://a.com/p3'' = Response status header hs
                  \<and> 400 \<le> status \<and> status < 600))
          \<and> Error ''https://a.com/p3'' = Error ''https://a.com/p3''"
    using f1 by simp
  have f3: "http_get site ''https://a.com/down'' = RequestException" by (rule site_http_get)
  have f2: "http_get site ''https://a.com/feed'' =
      Response 200 (Some ''application/rss+xml'') [''https://a.com/p4'']"
    by (rule site_http_get)
  have "\<not> str_contains ''text/html''
      (case Some ''application/rss+xml'' of None \<Rightarrow> [] | Some v \<Rightarrow> v)"
    by (simp add: site_content_type del: str_contains.simps)
  moreover have "\<not> (400 \<le> (200::nat) \<and> (200::nat) < 600)" by simp
  ultimately have b: "(\<exists>status header hs.
        http_get site ''https://a.com/feed'' = Response status header hs
          \<and> \<not> (400 \<le> status \<and> status < 600)
          \<and> \<not> str_contains ''text/html'' (case header of None \<Rightarrow> [] | Some v \<Rightarrow> v))
      \<and> Warning ''https://a.com/feed'' = Warning ''https://a.com/feed''"
    using f2 by blast
  have i: "\<And>x. x \<in> urls_to_visit (crawl_init x)" "\<And>x. raised (crawl_init x) = None"
    "\<And>x. visited_urls (crawl_init x) = {}" "\<And>x. messages (crawl_init x) = []"
    by (simp_all add: crawl_init_def)
  note t1 = fetch_failure_contained [OF site_run1 g1 u1, of "Error ''https://a.com/p3''"]
  note t2 = fetch_failure_contained [OF crawl_run_init i(2) i(1),
      of site "''https://a.com/feed''" "Warning ''https://a.com/feed''"]
  note t3 = fetch_failure_contained [OF crawl_run_init i(2) i(1),
      of site "''https://a.com/down''" "Error ''https://a.com/down''"]
  from t1 a
  have k1: "visited_urls (crawl_iteration site ''https://a.com'' ''https://a.com/p3'' ?s1)
      = insert ''https://a.com/p3'' (visited_urls ?s1)"
    and k2: "urls_to_visit (crawl_iteration site ''https://a.com'' ''https://a.com/p3'' ?s1)
      = urls_to_visit ?s1 - {''https://a.com/p3''}"
    and k3: "messages (crawl_iteration site ''https://a.com'' ''https://a.com/p3'' ?s1)
      = messages ?s1 @ [Error ''https://a.com/p3'']"
    and k4: "\<forall>v \<in> urls_to_visit ?s1 - {''https://a.com/p3''}.
        crawl_step site ''https://a.com''
          (crawl_iteration site ''https://a.com'' ''https://a.com/p3'' ?s1)
          (crawl_iteration site ''https://a.com'' v
            (crawl_iteration site ''https://a.com'' ''https://a.com/p3'' ?s1))"
    by blast+
  from k4 v1 have k5: "crawl_step site ''https://a.com''
        (crawl_iteration site ''https://a.com'' ''https://a.com/p3'' ?s1)
        (crawl_iteration site ''https://a.com'' ''https://a.com/p2''
          (crawl_iteration site ''https://a.com'' ''https://a.com/p3'' ?s1))"
    by blast
  have c1: "visited_urls (crawl_iteration site ''https://a.com'' ''https://a.com/p3'' ?s1)
      = {''https://a.com/p3'', ''https://a.com''}
   \<and> urls_to_visit (crawl_iteration site ''https://a.com'' ''https://a.com/p3'' ?s1)
      = {''https://a.com/p2''}
   \<and> messages (crawl_iteration site ''https://a.com'' ''https://a.com/p3'' ?s1)
      = [Error ''https://a.com/p3'']
   \<and> crawl_step site ''https://a.com''
        (crawl_iteration site ''https://a.com'' ''https://a.com/p3'' ?s1)
        (crawl_iteration site ''https://a.com'' ''https://a.com/p2''
          (crawl_iteration site ''https://a.com'' ''https://a.com/p3'' ?s1))"
    using k5 by (simp add: k1 k2 k3 fields)
  from t2 b
  have "messages (crawl_iteration site ''https://a.com/feed'' ''https://a.com/feed''
        (crawl_init ''https://a.com/feed''))
      = messages (crawl_init ''https://a.com/feed'') @ [Warning ''https://a.com/feed'']"
    and "visited_urls (crawl_iteration site ''https://a.com/feed'' ''https://a.com/feed''
        (crawl_init ''https://a.com/feed''))
      = insert ''https://a.com/feed'' (visited_urls (crawl_init ''https://a.com/feed''))"
    by blast+
  then have c2: "messages (crawl_iteration site ''https://a.com/feed'' ''https://a.com/feed''
        (crawl_init ''https://a.com/feed'')) = [Warning ''https://a.com/feed'']
   \<and> visited_urls (crawl_iteration site ''https://a.com/feed'' ''https://a.com/feed''
        (crawl_init ''https://a.com/feed'')) = {''https://a.com/feed''}"
    by (simp add: i)
  from t3 f3
  have "messages (crawl_iteration site ''https://a.com/down'' ''https://a.com/down''
        (crawl_init ''https://a.com/down''))
      = messages (crawl_init ''https://a.com/down'') @ [Error ''https://a.com/down'']"
    and "raised (crawl_iteration site ''https://a.com/down'' ''https://a.com/down''
        (crawl_init ''https://a.com/down'')) = None"
    by blast+
  then have c3: "messages (crawl_iteration site ''https://a.com/down'' ''https://a.com/down''
        (crawl_init ''https://a.com/down'')) = [Error ''https://a.com/down'']
   \<and> raised (crawl_iteration site ''https://a.com/down'' ''https://a.com/down''
        (crawl_init ''https://a.com/down'')) = None"
    by (simp add: i)
  from f1 c1 f3 c3 c2 show ?thesis by blast
qed

text \<open>
  A status outside 200 to 299 does not always make the fetch fail. On the
  second site a page is answered with status 300 and an HTML body: nothing is
  raised, no message is shown, and the link of the page is put into the
  frontier.
\<close>

theorem fetch_failure_contained_counterexample:
  "http_get faulty_site ''https://s.com/p3'' =
     Response 300 (Some ''text/html'') [''https://s.com/p5'']
   \<and> \<not> (200 \<le> (300::nat) \<and> (300::nat) < 300)
   \<and> fst (get_links faulty_site ''https://s.com/p3'' ''https://s.com''
        (crawl_iteration faulty_site ''https://s.com'' ''https://s.com''
          (crawl_init ''https://s.com''))) = Inr {''https://s.com/p5''}
   \<and> ''https://s.com/p3'' \<in> urls_to_visit
        (crawl_iteration faulty_site ''https://s.com'' ''https://s.com''
          (crawl_init ''https://s.com''))
   \<and> crawl_run faulty_site ''https://s.com''
        (crawl_iteration faulty_site ''https://s.com'' ''https://s.com''
          (crawl_init ''https://s.com''))
   \<and> urls_to_visit (crawl_iteration faulty_site ''https://s.com'' ''https://s.com/p3''
        (crawl_iteration faulty_site ''https://s.com'' ''https://s.com''
          (crawl_init ''https://s.com'')))
      = {''https://s.com/p2'', ''https://s.com/p5''}
   \<and> messages (crawl_iteration faulty_site ''https://s.com'' ''https://s.com/p3''
        (crawl_iteration faulty_site ''https://s.com'' ''https://s.com''
          (crawl_init ''https://s.com''))) = []"
  using faulty_run1
  by (simp add: faulty_http_get faulty_get_links faulty_s2') (simp add: faulty_s1)

text \<open>
  C4, as the code has it. When the URLs the seed can lead to lie in a finite
  set \<open>U\<close> (the seed is in \<open>U\<close>, and the links that \<^verbatim>\<open>get_links\<close> returns for every
  page of \<open>U\<close> are in \<open>U\<close>), the crawl loop terminates: no run goes on forever,
  and whichever element \<^verbatim>\<open>pop()\<close> chooses the loop is left within \<open>card U\<close>
  iterations. It is left either through its condition, with an empty frontier,
  or through an exception that \<^verbatim>\<open>get_links\<close> does not catch, whatever the
  frontier then holds. The loop takes another iteration exactly when no
  exception was raised and the frontier is not empty, whatever the number of
  URLs seen so far. Every iteration either leaves \<open>visited_urls\<close> as it is and
  makes the frontier smaller, or adds a URL that was not visited before to
  \<open>visited_urls\<close>. When no page of \<open>U\<close> makes \<^verbatim>\<open>get_links\<close> raise, no run is left
  by an exception, and the loop returns with an empty frontier.
\<close>

theorem crawl_terminates:
  assumes fin: "finite U"
    and seed: "start_url \<in> U"
    and closed: "\<forall>u\<in>U. returned_links (fst (get_links e u start_url (crawl_init start_url)))
                   \<subseteq> U"
  shows "(\<nexists>run. run 0 = crawl_init start_url
                \<and> (\<forall>i. crawl_step e start_url (run i) (run (Suc i))))
    \<and> (\<exists>t. crawl_run e start_url t \<and> (raised t \<noteq> None \<or> urls_to_visit t = {}))
    \<and> (\<forall>pop'. (\<forall>S. S \<noteq> {} \<longrightarrow> pop' S \<in> S) \<longrightarrow>
          (\<exists>t. crawl_website pop' e start_url (card U) = Some t
                \<and> (raised t \<noteq> None \<or> urls_to_visit t = {}) \<and> crawl_run e start_url t))
    \<and> (\<forall>s. (\<exists>s'. crawl_step e start_url s s')
              \<longleftrightarrow> raised s = None \<and> urls_to_visit s \<noteq> {})
    \<and> (\<forall>s s'. crawl_step e start_url s s' \<longrightarrow>
          (visited_urls s' = visited_urls s \<and> urls_to_visit s' \<subset> urls_to_visit s)
        \<or> (\<exists>u. u \<notin> visited_urls s \<and> visited_urls s' = insert u (visited_urls s)))
    \<and> ((\<forall>u\<in>U. \<exists>links. fst (get_links e u start_url (crawl_init start_url)) = Inr links)
        \<longrightarrow> (\<forall>t. crawl_run e start_url t \<longrightarrow> raised t = None)
          \<and> (\<forall>pop'. (\<forall>S. S \<noteq> {} \<longrightarrow> pop' S \<in> S) \<longrightarrow>
                (\<exists>t. crawl_website pop' e start_url (card U) = Some t
                      \<and> raised t = None \<and> urls_to_visit t = {})))"
proof -
  have w: "wf {(s', s). crawl_run e start_url s \<and> crawl_step e start_url s s'}"
    using fin seed closed by (rule crawl_step_wf)
  have "False" if r0: "run 0 = crawl_init start_url"
    and rs: "\<forall>i. crawl_step e start_url (run i) (run (Suc i))" for run
  proof -
    have "\<forall>i. (run (Suc i), run i) \<in> {(s', s). crawl_run e start_url s \<and> crawl_step e start_url s s'}"
      using crawl_run_chain [OF r0 rs] rs by simp
    with w show False unfolding wf_iff_no_infinite_down_chain by blast
  qed
  then have a: "\<nexists>run. run 0 = crawl_init start_url
                \<and> (\<forall>i. crawl_step e start_url (run i) (run (Suc i)))" by blast
  from crawl_reaches_end [OF w crawl_run_init]
  have b: "\<exists>t. crawl_run e start_url t \<and> (raised t \<noteq> None \<or> urls_to_visit t = {})"
    unfolding crawl_run_def by blast
  have l: "\<exists>t. crawl_website pop' e start_url (card U) = Some t
                \<and> (raised t \<noteq> None \<or> urls_to_visit t = {}) \<and> crawl_run e start_url t"
    if pop: "\<forall>S. S \<noteq> {} \<longrightarrow> pop' S \<in> S" for pop'
  proof -
    have "card (U - visited_urls (crawl_init start_url)) \<le> card U"
      by (simp add: crawl_init_def)
    with crawl_loop_returns [OF fin seed closed pop crawl_run_init]
    obtain t where t: "crawl_loop pop' e start_url (card U) (crawl_init start_url) = Some t"
      by blast
    from crawl_loop_end [OF pop t]
    have "raised t \<noteq> None \<or> urls_to_visit t = {}" and "crawl_run e start_url t"
      by (simp_all add: crawl_run_def)
    with t show ?thesis by (simp add: crawl_website_def)
  qed
  have c: "\<forall>s. (\<exists>s'. crawl_step e start_url s s')
              \<longleftrightarrow> raised s = None \<and> urls_to_visit s \<noteq> {}"
    by (simp add: crawl_step_iff)
  have d: "\<forall>s s'. crawl_step e start_url s s' \<longrightarrow>
          (visited_urls s' = visited_urls s \<and> urls_to_visit s' \<subset> urls_to_visit s)
        \<or> (\<exists>u. u \<notin> visited_urls s \<and> visited_urls s' = insert u (visited_urls s))"
    using crawl_step_progress by blast
  have q: "(\<forall>t. crawl_run e start_url t \<longrightarrow> raised t = None)
          \<and> (\<forall>pop'. (\<forall>S. S \<noteq> {} \<longrightarrow> pop' S \<in> S) \<longrightarrow>
                (\<exists>t. crawl_website pop' e start_url (card U) = Some t
                      \<and> raised t = None \<and> urls_to_visit t = {}))"
    if quiet: "\<forall>u\<in>U. \<exists>links. fst (get_links e u start_url (crawl_init start_url)) = Inr links"
  proof -
    have n: "\<forall>t. crawl_run e start_url t \<longrightarrow> raised t = None"
      using crawl_run_not_raised [OF _ seed closed quiet] by blast
    have "\<exists>t. crawl_website pop' e start_url (card U) = Some t
                      \<and> raised t = None \<and> urls_to_visit t = {}"
      if pop: "\<forall>S. S \<noteq> {} \<longrightarrow> pop' S \<in> S" for pop'
    proof -
      from l [OF pop] obtain t where t: "crawl_website pop' e start_url (card U) = Some t"
        and e: "raised t \<noteq> None \<or> urls_to_visit t = {}" and r: "crawl_run e start_url t"
        by blast
      from n r have "raised t = None" by blast
      with e t show ?thesis by blast
    qed
    with n show ?thesis by blast
  qed
  have l': "\<forall>pop'. (\<forall>S. S \<noteq> {} \<longrightarrow> pop' S \<in> S) \<longrightarrow>
          (\<exists>t. crawl_website pop' e start_url (card U) = Some t
                \<and> (raised t \<noteq> None \<or> urls_to_visit t = {}) \<and> crawl_run e start_url t)"
    using l by blast
  have q': "(\<forall>u\<in>U. \<exists>links. fst (get_links e u start_url (crawl_init start_url)) = Inr links)
        \<longrightarrow> (\<forall>t. crawl_run e start_url t \<longrightarrow> raised t = None)
          \<and> (\<forall>pop'. (\<forall>S. S \<noteq> {} \<longrightarrow> pop' S \<in> S) \<longrightarrow>
                (\<exists>t. crawl_website pop' e start_url (card U) = Some t
                      \<and> raised t = None \<and> urls_to_visit t = {}))"
    using q by (rule impI)
  show ?thesis by (intro conjI) (rule a b l' c d q')+
qed

theorem crawl_terminates_witness:
  "finite {''https://a.com'', ''https://a.com/p2'', ''https://a.com/p3''}
   \<and> card {''https://a.com'', ''https://a.com/p2'', ''https://a.com/p3''} = 3
   \<and> (\<nexists>run. run 0 = crawl_init ''https://a.com''
                \<and> (\<forall>i. crawl_step site ''https://a.com'' (run i) (run (Suc i))))
   \<and> (\<exists>t. crawl_website (pop_first []) site ''https://a.com'' 3 = Some t
         \<and> raised t = None \<and> urls_to_visit t = {})
   \<and> crawl_website (pop_first [''https://a.com'', ''https://a.com/p2'', ''https://a.com/p3''])
        site ''https://a.com'' 3
      = Some \<lparr>visited_urls = {''https://a.com'', ''https://a.com/p2'', ''https://a.com/p3''},
          external_links = [(''https://b.com'', ''https://a.com''),
            (''https://b.com'', ''https://a.com/p2''), (''https://c.com/x'', ''https://a.com/p2'')],
          urls_to_visit = {},
          total_urls_discovered = 3,
          requests = [''https://a.com'', ''https://a.com/p2'', ''https://a.com/p3''],
          messages = [Error ''https://a.com/p3''], progress = [(1, 1), (2, 3), (3, 3)],
          raised = None\<rparr>"
proof -
  have fin: "finite {''https://a.com'', ''https://a.com/p2'', ''https://a.com/p3''}" by simp
  have c3: "card {''https://a.com'', ''https://a.com/p2'', ''https://a.com/p3''} = 3" by simp
  have seed: "''https://a.com'' \<in> {''https://a.com'', ''https://a.com/p2'', ''https://a.com/p3''}"
    by simp
  have closed: "\<forall>u\<in>{''https://a.com'', ''https://a.com/p2'', ''https://a.com/p3''}.
      returned_links (fst (get_links site u ''https://a.com'' (crawl_init ''https://a.com'')))
        \<subseteq> {''https://a.com'', ''https://a.com/p2'', ''https://a.com/p3''}"
    by (simp add: site_get_links returned_links_def)
  have quiet: "\<forall>u\<in>{''https://a.com'', ''https://a.com/p2'', ''https://a.com/p3''}.
      \<exists>links. fst (get_links site u ''https://a.com'' (crawl_init ''https://a.com'')) = Inr links"
    by (simp add: site_get_links)
  have pop: "\<forall>S::string set. S \<noteq> {} \<longrightarrow> pop_first [] S \<in> S"
    by (simp add: pop_first_in)
  note t = crawl_terminates [OF fin seed closed]
  from t have a: "\<nexists>run. run 0 = crawl_init ''https://a.com''
                \<and> (\<forall>i. crawl_step site ''https://a.com'' (run i) (run (Suc i)))"
    by blast
  from t quiet pop
  have "\<exists>t. crawl_website (pop_first []) site ''https://a.com''
          (card {''https://a.com'', ''https://a.com/p2'', ''https://a.com/p3''}) = Some t
        \<and> raised t = None \<and> urls_to_visit t = {}"
    by blast
  then have b: "\<exists>t. crawl_website (pop_first []) site ''https://a.com'' 3 = Some t
         \<and> raised t = None \<and> urls_to_visit t = {}"
    by (simp only: c3)
  from fin c3 a b site_crawl_website show ?thesis by blast
qed

text \<open>
  The loop can end with a frontier that is not empty. On the second site, which
  is finite, the seed links to two pages; the one popped first holds an href
  that \<^verbatim>\<open>urljoin\<close> rejects, \<^verbatim>\<open>ValueError\<close> leaves \<^verbatim>\<open>get_links\<close> and
  \<^verbatim>\<open>crawl_website\<close>, and the other page is still in the frontier.
\<close>

theorem crawl_terminates_counterexample:
  "finite {''https://s.com'', ''https://s.com/p2'', ''https://s.com/p3'', ''https://s.com/p5''}
   \<and> ''https://s.com''
       \<in> {''https://s.com'', ''https://s.com/p2'', ''https://s.com/p3'', ''https://s.com/p5''}
   \<and> returned_links (fst (get_links faulty_site ''https://s.com'' ''https://s.com''
         (crawl_init ''https://s.com'')))
       \<subseteq> {''https://s.com'', ''https://s.com/p2'', ''https://s.com/p3'', ''https://s.com/p5''}
   \<and> returned_links (fst (get_links faulty_site ''https://s.com/p2'' ''https://s.com''
         (crawl_init ''https://s.com'')))
       \<subseteq> {''https://s.com'', ''https://s.com/p2'', ''https://s.com/p3'', ''https://s.com/p5''}
   \<and> returned_links (fst (get_links faulty_site ''https://s.com/p3'' ''https://s.com''
         (crawl_init ''https://s.com'')))
       \<subseteq> {''https://s.com'', ''https://s.com/p2'', ''https://s.com/p3'', ''https://s.com/p5''}
   \<and> returned_links (fst (get_links faulty_site ''https://s.com/p5'' ''https://s.com''
         (crawl_init ''https://s.com'')))
       \<subseteq> {''https://s.com'', ''https://s.com/p2'', ''https://s.com/p3'', ''https://s.com/p5''}
   \<and> crawl_run faulty_site ''https://s.com''
        (crawl_iteration faulty_site ''https://s.com'' ''https://s.com/p2''
          (crawl_iteration faulty_site ''https://s.com'' ''https://s.com''
            (crawl_init ''https://s.com'')))
   \<and> (\<nexists>s'. crawl_step faulty_site ''https://s.com''
        (crawl_iteration faulty_site ''https://s.com'' ''https://s.com/p2''
          (crawl_iteration faulty_site ''https://s.com'' ''https://s.com''
            (crawl_init ''https://s.com''))) s')
   \<and> urls_to_visit
        (crawl_iteration faulty_site ''https://s.com'' ''https://s.com/p2''
          (crawl_iteration faulty_site ''https://s.com'' ''https://s.com''
            (crawl_init ''https://s.com''))) = {''https://s.com/p3''}
   \<and> urls_to_visit
        (crawl_iteration faulty_site ''https://s.com'' ''https://s.com/p2''
          (crawl_iteration faulty_site ''https://s.com'' ''https://s.com''
            (crawl_init ''https://s.com''))) \<noteq> {}
   \<and> raised
        (crawl_iteration faulty_site ''https://s.com'' ''https://s.com/p2''
          (crawl_iteration faulty_site ''https://s.com'' ''https://s.com''
            (crawl_init ''https://s.com''))) = Some ValueError
   \<and> crawl_website (pop_first [''https://s.com'', ''https://s.com/p2'', ''https://s.com/p3''])
        faulty_site ''https://s.com'' 4
      = Some (crawl_iteration faulty_site ''https://s.com'' ''https://s.com/p2''
          (crawl_iteration faulty_site ''https://s.com'' ''https://s.com''
            (crawl_init ''https://s.com'')))"
proof -
  let ?t = "crawl_iteration faulty_site ''https://s.com'' ''https://s.com/p2''
          (crawl_iteration faulty_site ''https://s.com'' ''https://s.com''
            (crawl_init ''https://s.com''))"
  have l: "returned_links (fst (get_links faulty_site ''https://s.com'' ''https://s.com''
         (crawl_init ''https://s.com'')))
       \<subseteq> {''https://s.com'', ''https://s.com/p2'', ''https://s.com/p3'', ''https://s.com/p5''}"
    "returned_links (fst (get_links faulty_site ''https://s.com/p2'' ''https://s.com''
         (crawl_init ''https://s.com'')))
       \<subseteq> {''https://s.com'', ''https://s.com/p2'', ''https://s.com/p3'', ''https://s.com/p5''}"
    "returned_links (fst (get_links faulty_site ''https://s.com/p3'' ''https://s.com''
         (crawl_init ''https://s.com'')))
       \<subseteq> {''https://s.com'', ''https://s.com/p2'', ''https://s.com/p3'', ''https://s.com/p5''}"
    "returned_links (fst (get_links faulty_site ''https://s.com/p5'' ''https://s.com''
         (crawl_init ''https://s.com'')))
       \<subseteq> {''https://s.com'', ''https://s.com/p2'', ''https://s.com/p3'', ''https://s.com/p5''}"
    by (simp_all add: faulty_get_links returned_links_def)
  have r: "raised ?t = Some ValueError" and f: "urls_to_visit ?t = {''https://s.com/p3''}"
    by (simp_all add: faulty_s2)
  from r have n: "\<nexists>s'. crawl_step faulty_site ''https://s.com'' ?t s'"
    by (simp add: crawl_step_iff)
  from f have ne: "urls_to_visit ?t \<noteq> {}" by simp
  have w: "crawl_website (pop_first [''https://s.com'', ''https://s.com/p2'', ''https://s.com/p3''])
        faulty_site ''https://s.com'' 4 = Some ?t"
    by (simp only: faulty_crawl_website faulty_s2)
  have fin: "finite {''https://s.com'', ''https://s.com/p2'', ''https://s.com/p3'',
      ''https://s.com/p5''}" by simp
  have seed: "''https://s.com''
       \<in> {''https://s.com'', ''https://s.com/p2'', ''https://s.com/p3'', ''https://s.com/p5''}"
    by simp
  from fin seed l faulty_run2 n f ne r w show ?thesis by blast
qed

end
